theory Spec2Isabelle
  imports Complex_Main "HOL-Library.Multiset" "HOL-Library.Char_ord" "HOL-Library.List_Lexorder"
begin

section \<open>The trajectory generator: planner, policy, wrapper and shard writer\<close>

text \<open>
  A shallow embedding of \<^verbatim>\<open>generator.py\<close>. Python floats are modelled as real
  numbers (exact arithmetic, \<open>np.cos\<close> and \<open>np.sin\<close> as the real functions), Python
  integers as \<open>int\<close> (or \<open>nat\<close> for counters and action codes that never go
  negative), dictionaries as maps, an exception as a value of type \<open>error\<close>.
\<close>

subsection \<open>Numbers, poses and the map\<close>

datatype error =
    RunawayDijkstra
  | NeedAgentPosition
  | NeedMap
  | WrongOneHotActionShape
  | IndexError
  | KeyError
  | ValueError
  | TypeError

type_synonym pose = "real \<times> real \<times> real"

type_synonym key = "real \<times> real \<times> real"

text \<open>
  \<open>round(v)\<close> with one argument: the nearest integer, a tie going to the even
  neighbour. \<open>int(v)\<close>: truncation towards zero.
\<close>

definition py_round :: "real \<Rightarrow> int" where
  "py_round v =
     (let f = \<lfloor>v\<rfloor>; r = v - of_int f
      in if r < 1 / 2 then f else if 1 / 2 < r then f + 1 else if even f then f else f + 1)"

definition py_int :: "real \<Rightarrow> int" where
  "py_int v = (if 0 \<le> v then \<lfloor>v\<rfloor> else \<lceil>v\<rceil>)"

definition WALL :: int where
  "WALL = 2"

definition KPREC :: real where
  "KPREC = 5"

definition RADIUS :: real where
  "RADIUS = 2 / 10"

text \<open>
  The map is a two-dimensional array: its shape and its cells. Every read of a cell in
  the source is guarded by a bounds test, or uses an index drawn below the shape.
\<close>

record grid =
  shape0 :: nat
  shape1 :: nat
  cell :: "nat \<Rightarrow> nat \<Rightarrow> int"

text \<open>The key under which \<open>find_shortest\<close> files a pose in \<open>visited\<close>.\<close>

definition key_of :: "pose \<Rightarrow> key" where
  "key_of p =
     (case p of (x, y, d) \<Rightarrow>
        (of_int (py_round (x * KPREC)) / KPREC,
         of_int (py_round (y * KPREC)) / KPREC,
         of_int (py_round (d * KPREC)) / KPREC))"

text \<open>
  The key the specification describes: each component rounded to a number of decimal
  digits, \<open>round(v, P)\<close>. Written from the specification's words, to be compared
  with \<open>key_of\<close>.
\<close>

definition spec_round_digits :: "nat \<Rightarrow> real \<Rightarrow> real" where
  "spec_round_digits P v = of_int (py_round (v * 10 ^ P)) / 10 ^ P"

definition spec_key :: "pose \<Rightarrow> key" where
  "spec_key p =
     (case p of (x, y, d) \<Rightarrow>
        (spec_round_digits 5 x, spec_round_digits 5 y, spec_round_digits 5 d))"

subsection \<open>The transition of one action\<close>

text \<open>The test of one corner probe point \<open>(x2, y2)\<close>.\<close>

definition blocked :: "grid \<Rightarrow> real \<times> real \<Rightarrow> bool" where
  "blocked m c =
     (case c of (x2, y2) \<Rightarrow>
        x2 < 0 \<or> y2 < 0 \<or> real (shape0 m) \<le> x2 \<or> real (shape1 m) \<le> y2
        \<or> cell m (nat (py_int x2)) (nat (py_int y2)) = WALL)"

text \<open>
  The loop over the four corners: the first blocked corner resets the destination to
  the current position and leaves the loop.
\<close>

fun probe :: "grid \<Rightarrow> real \<times> real \<Rightarrow> real \<times> real \<Rightarrow> (real \<times> real) list \<Rightarrow> real \<times> real" where
  "probe m xy x1y1 [] = x1y1"
| "probe m xy x1y1 (c # cs) = (if blocked m c then xy else probe m xy x1y1 cs)"

definition corners :: "real \<times> real \<Rightarrow> (real \<times> real) list" where
  "corners c =
     (case c of (x1, y1) \<Rightarrow>
        [(x1 - RADIUS, y1 - RADIUS), (x1 + RADIUS, y1 - RADIUS),
         (x1 - RADIUS, y1 + RADIUS), (x1 + RADIUS, y1 + RADIUS)])"

definition forward :: "grid \<Rightarrow> real \<Rightarrow> pose \<Rightarrow> real \<times> real" where
  "forward m step_size p =
     (case p of (x, y, d) \<Rightarrow>
        (let x1 = x + step_size * cos (d / 180 * pi);
             y1 = y + step_size * sin (d / 180 * pi)
         in probe m (x, y) (x1, y1) (corners (x1, y1))))"

text \<open>The pose \<open>p1\<close> that the body of \<open>for action in range(3)\<close> computes.\<close>

definition move :: "grid \<Rightarrow> real \<Rightarrow> real \<Rightarrow> pose \<Rightarrow> nat \<Rightarrow> pose" where
  "move m step_size turn_size p action =
     (case p of (x, y, d) \<Rightarrow>
        (let d1 = (if action = 0 then (let t = d - turn_size in if t < - 180 then t + 360 else t)
                   else if action = 1 then (let t = d + turn_size in if 180 < t then t - 360 else t)
                   else d);
             x1y1 = (if action = 2 then forward m step_size (x, y, d) else (x, y))
         in (fst x1y1, snd x1y1, d1)))"

definition heading :: "pose \<Rightarrow> real" where
  "heading p = snd (snd p)"

definition at_goal :: "pose \<Rightarrow> int \<times> int \<Rightarrow> bool" where
  "at_goal p goal = (py_int (fst p) = fst goal \<and> py_int (fst (snd p)) = snd goal)"

subsection \<open>The search\<close>

record bfs_state =
  que :: "pose list"
  que_ix :: nat
  visited :: "key list"
  parent :: "pose \<rightharpoonup> pose"
  parent_action :: "pose \<rightharpoonup> nat"

text \<open>
  The end of the loop body: a pose whose key is new is appended to the queue and gets
  its parent pointer; the assertion bounds the number of keys.
\<close>

definition visit :: "pose \<Rightarrow> pose \<Rightarrow> nat \<Rightarrow> bfs_state \<Rightarrow> error + bfs_state" where
  "visit p p1 action st =
     (if key_of p1 \<notin> set (visited st) then
        (let st' = st\<lparr>que := que st @ [p1],
                      parent := (parent st)(p1 \<mapsto> p),
                      parent_action := (parent_action st)(p1 \<mapsto> action),
                      visited := visited st @ [key_of p1]\<rparr>
         in if length (visited st') < 100000 then Inr st' else Inl RunawayDijkstra)
      else Inr st)"

fun for_actions :: "grid \<Rightarrow> real \<Rightarrow> real \<Rightarrow> pose \<Rightarrow> nat list \<Rightarrow> bfs_state \<Rightarrow> error + bfs_state" where
  "for_actions m step_size turn_size p [] st = Inr st"
| "for_actions m step_size turn_size p (a # as) st =
     (case visit p (move m step_size turn_size p a) a st of
        Inl e \<Rightarrow> Inl e
      | Inr st' \<Rightarrow> for_actions m step_size turn_size p as st')"

definition room :: "bfs_state \<Rightarrow> nat" where
  "room st = 2 * (100000 - length (visited st)) + length (que st)"

lemma visit_room:
  "visit p p1 a st = Inr st' \<Longrightarrow> que_ix st' = que_ix st \<and> room st' \<le> room st"
  by (auto simp: visit_def room_def Let_def split: if_splits)

lemma for_actions_room:
  "for_actions m ss ts p as st = Inr st' \<Longrightarrow> que_ix st' = que_ix st \<and> room st' \<le> room st"
proof (induction as arbitrary: st)
  case Nil
  then show ?case by simp
next
  case (Cons a as)
  then obtain st1 where v: "visit p (move m ss ts p a) a st = Inr st1"
    and r: "for_actions m ss ts p as st1 = Inr st'"
    by (auto split: sum.splits)
  from Cons.IH [OF r] visit_room [OF v] show ?case by auto
qed

lemma room_ge_que: "length (que st) \<le> room st"
  by (simp add: room_def)

function bfs_while :: "grid \<Rightarrow> int \<times> int \<Rightarrow> real \<Rightarrow> real \<Rightarrow> bfs_state \<Rightarrow> error + bfs_state \<times> pose option" where
  "bfs_while m goal step_size turn_size st =
     (if que_ix st < length (que st) then
        (let p = que st ! que_ix st;
             st1 = st\<lparr>que_ix := que_ix st + 1\<rparr>
         in if at_goal p goal then Inr (st1, Some p)
            else (case for_actions m step_size turn_size p [0, 1, 2] st1 of
                    Inl e \<Rightarrow> Inl e
                  | Inr st2 \<Rightarrow> bfs_while m goal step_size turn_size st2))
      else Inr (st, None))"
  by pat_completeness auto
termination
proof (relation "measure (\<lambda>(m, goal, ss, ts, st). room st - que_ix st)", goal_cases)
  case 1
  show ?case by simp
next
  case (2 m goal ss ts st p st1 st2)
  from 2 have r: "for_actions m ss ts p [0, 1, 2] (st\<lparr>que_ix := que_ix st + 1\<rparr>) = Inr st2"
    by simp
  from for_actions_room [OF r]
  have a: "que_ix st2 = que_ix st + 1" and b: "room st2 \<le> room st"
    by (simp_all add: room_def)
  from 2 have "que_ix st < room st"
    using room_ge_que [of st] by simp
  with a b show ?case by simp
qed

text \<open>
  The walk back along the parent pointers. The loop runs while the pose has an entry in
  \<open>parent_action\<close>; \<open>None\<close> is the loop that never ends.
\<close>

partial_function (option) walk ::
  "(pose \<rightharpoonup> pose) \<Rightarrow> (pose \<rightharpoonup> nat) \<Rightarrow> pose \<Rightarrow> pose list \<Rightarrow> nat list
    \<Rightarrow> (error + pose list \<times> nat list) option" where
  "walk par pact p path actions =
     (case pact p of
        None \<Rightarrow> Some (Inr (path, actions))
      | Some a \<Rightarrow>
          (case par p of
             None \<Rightarrow> Some (Inl KeyError)
           | Some q \<Rightarrow> walk par pact q (path @ [p]) (actions @ [a])))"

definition init_state :: "pose \<Rightarrow> bfs_state" where
  "init_state start =
     \<lparr>que = [start], que_ix = 0, visited = [key_of start],
      parent = Map.empty, parent_action = Map.empty\<rparr>"

definition find_shortest ::
  "grid \<Rightarrow> pose \<Rightarrow> int \<times> int \<Rightarrow> real \<Rightarrow> real \<Rightarrow> (error + nat list \<times> pose list \<times> nat) option" where
  "find_shortest m start goal step_size turn_size =
     (case bfs_while m goal step_size turn_size (init_state start) of
        Inl e \<Rightarrow> Some (Inl e)
      | Inr (st, goal_state) \<Rightarrow>
          (case goal_state of
             None \<Rightarrow> Some (Inr ([], [], length (visited st)))
           | Some g \<Rightarrow>
               (case walk (parent st) (parent_action st) g [] [] of
                  None \<Rightarrow> None
                | Some (Inl e) \<Rightarrow> Some (Inl e)
                | Some (Inr (path, actions)) \<Rightarrow>
                    Some (Inr (rev actions, rev path, length (visited st))))))"

subsection \<open>The observation and the bookkeeping wrapper\<close>

text \<open>
  The observation dictionary, with the keys the code reads and writes. The two keys
  that \<open>MazeDijkstraPolicy\<close> asserts to be present are optional. An action is a
  Python integer or a one-dimensional array.
\<close>

record obs =
  agent_pos :: "(real \<times> real) option"
  agent_dir :: "real \<times> real"
  map_agent :: "grid option"
  action :: "real list"
  reward :: real
  terminal :: bool
  reset :: bool

datatype act = IntAct int | ArrayAct "real list"

record 'e ar_wrapper =
  env :: 'e
  max_steps :: int
  epstep :: int
  action_size :: nat

text \<open>
  \<open>np.zeros(n)\<close> with \<open>[a] = 1.0\<close>: a negative index counts from the end, an index
  out of range raises.
\<close>

definition onehot :: "nat \<Rightarrow> int \<Rightarrow> error + real list" where
  "onehot n a =
     (if - int n \<le> a \<and> a < int n
      then Inr ((replicate n 0)[nat (if a < 0 then a + int n else a) := 1])
      else Inl IndexError)"

text \<open>
  \<open>ActionRewardResetWrapper.step\<close> and \<open>reset\<close>; the wrapped environment's own
  \<open>step\<close> and \<open>reset\<close> are parameters.
\<close>

definition ar_step ::
  "('e \<Rightarrow> act \<Rightarrow> 'e \<times> obs \<times> real \<times> bool \<times> 'i) \<Rightarrow> 'e ar_wrapper \<Rightarrow> act
    \<Rightarrow> error + 'e ar_wrapper \<times> obs \<times> real \<times> bool \<times> 'i" where
  "ar_step env_step w a =
     (let w1 = w\<lparr>epstep := epstep w + 1\<rparr>
      in case env_step (env w1) a of (e, ob, r, done, info) \<Rightarrow>
           (case (case a of
                    IntAct i \<Rightarrow> onehot (action_size w1) i
                  | ArrayAct v \<Rightarrow>
                      if length v = action_size w1 then Inr v else Inl WrongOneHotActionShape) of
              Inl err \<Rightarrow> Inl err
            | Inr action_onehot \<Rightarrow>
                Inr (w1\<lparr>env := e\<rparr>,
                     ob\<lparr>action := action_onehot, reward := r,
                        terminal := (if epstep w1 < max_steps w1 then done else False),
                        reset := False\<rparr>,
                     r, done, info)))"

definition ar_reset :: "('e \<Rightarrow> 'e \<times> obs) \<Rightarrow> 'e ar_wrapper \<Rightarrow> 'e ar_wrapper \<times> obs" where
  "ar_reset env_reset w =
     (case env_reset (env w) of (e, ob) \<Rightarrow>
        (w\<lparr>env := e, epstep := 0\<rparr>,
         ob\<lparr>action := replicate (action_size w) 0, reward := 0, terminal := False,
            reset := True\<rparr>))"

subsection \<open>The navigation policy\<close>

text \<open>
  Randomness is a tape of raw draws, read from the front: \<open>np.random.randint(n)\<close>
  is a draw modulo \<open>n\<close>, \<open>np.random.rand()\<close> the low 53 bits of a draw as a
  fraction. A call that needs a draw from an empty tape has no result (\<open>None\<close>).
\<close>

definition rand :: "nat \<Rightarrow> real" where
  "rand k = real (k mod 2 ^ 53) / 2 ^ 53"

record nav_state =
  step_size :: real
  turn_size :: real
  epsilon :: real
  goal :: "(int \<times> int) option"
  expected_pos :: "pose option"

text \<open>\<open>_generate_goal\<close>: cells are drawn until one is not a wall.\<close>

fun generate_goal :: "grid \<Rightarrow> nat list \<Rightarrow> (error + (int \<times> int) \<times> nat list) option" where
  "generate_goal m (a # b # tape) =
     (if shape0 m = 0 \<or> shape1 m = 0 then Some (Inl ValueError)
      else (let x = a mod shape0 m; y = b mod shape1 m
            in if cell m x y \<noteq> WALL then Some (Inr ((int x, int y), tape))
               else generate_goal m tape))"
| "generate_goal m [a] = (if shape0 m = 0 \<or> shape1 m = 0 then Some (Inl ValueError) else None)"
| "generate_goal m [] = (if shape0 m = 0 then Some (Inl ValueError) else None)"

lemma generate_goal_shorter:
  "generate_goal m tape = Some (Inr (g, tape')) \<Longrightarrow> length tape' < length tape"
proof (induction m tape rule: generate_goal.induct)
  case (1 m a b tape)
  show ?case
  proof (cases "cell m (a mod shape0 m) (b mod shape1 m) \<noteq> WALL")
    case True
    with 1 show ?thesis by (auto simp: Let_def split: if_splits)
  next
    case False
    with 1 have "generate_goal m tape = Some (Inr (g, tape'))" and "\<not> (shape0 m = 0 \<or> shape1 m = 0)"
      by (auto simp: Let_def split: if_splits)
    with 1 False have "length tape' < length tape" by simp
    then show ?thesis by simp
  qed
qed (auto split: if_splits)

text \<open>
  \<open>np.arctan2\<close> on reals and \<open>np.isclose(a, b, rtol)\<close> with the default
  \<open>atol = 1e-08\<close>.
\<close>

definition arctan2 :: "real \<Rightarrow> real \<Rightarrow> real" where
  "arctan2 y x =
     (if 0 < x then arctan (y / x)
      else if x < 0 \<and> 0 \<le> y then arctan (y / x) + pi
      else if x < 0 \<and> y < 0 then arctan (y / x) - pi
      else if 0 < y then pi / 2
      else if y < 0 then - pi / 2
      else 0)"

definition isclose :: "real \<Rightarrow> real \<Rightarrow> real \<Rightarrow> bool" where
  "isclose a b rtol = (\<bar>a - b\<bar> \<le> 1 / 10 ^ 8 + rtol * \<bar>b\<bar>)"

text \<open>The start of \<open>__call__\<close>: a reset forgets the goal and the expected position.\<close>

definition on_reset :: "nav_state \<Rightarrow> obs \<Rightarrow> nav_state" where
  "on_reset st ob = (if reset ob then st\<lparr>goal := None, expected_pos := None\<rparr> else st)"

definition ensure_goal :: "grid \<Rightarrow> nav_state \<Rightarrow> nat list \<Rightarrow> (error + nav_state \<times> nat list) option" where
  "ensure_goal m st tape =
     (case goal st of
        None \<Rightarrow>
          (case generate_goal m tape of
             None \<Rightarrow> None
           | Some (Inl e) \<Rightarrow> Some (Inl e)
           | Some (Inr (g, tape')) \<Rightarrow> Some (Inr (st\<lparr>goal := Some g\<rparr>, tape')))
      | Some g \<Rightarrow> Some (Inr (st, tape)))"

text \<open>
  The drift test: the first two components of the expected pose against the observed
  position.
\<close>

definition check_drift ::
  "grid \<Rightarrow> real \<times> real \<Rightarrow> nav_state \<Rightarrow> nat list \<Rightarrow> (error + nav_state \<times> nat list) option" where
  "check_drift m xy st tape =
     (case expected_pos st of
        None \<Rightarrow> Some (Inr (st, tape))
      | Some e \<Rightarrow>
          if \<not> (isclose (fst e) (fst xy) (1 / 10 ^ 3) \<and> isclose (fst (snd e)) (snd xy) (1 / 10 ^ 3))
          then (case generate_goal m tape of
                  None \<Rightarrow> None
                | Some (Inl er) \<Rightarrow> Some (Inl er)
                | Some (Inr (g, tape')) \<Rightarrow> Some (Inr (st\<lparr>goal := Some g\<rparr>, tape')))
          else Some (Inr (st, tape)))"

text \<open>
  The loop \<open>while True\<close>: plan, and act on a plan that is not empty; on an empty
  plan draw another goal and plan again.
\<close>

function plan :: "grid \<Rightarrow> pose \<Rightarrow> nav_state \<Rightarrow> nat list \<Rightarrow> (error + nat \<times> nav_state \<times> nat list) option" where
  "plan m p st tape =
     (case goal st of
        None \<Rightarrow> Some (Inl TypeError)
      | Some g \<Rightarrow>
          (case find_shortest m p g (step_size st) (turn_size st) of
             None \<Rightarrow> None
           | Some (Inl e) \<Rightarrow> Some (Inl e)
           | Some (Inr (actions, path, nvis)) \<Rightarrow>
               if 0 < length actions then
                 (case tape of
                    [] \<Rightarrow> None
                  | u # tape1 \<Rightarrow>
                      if rand u < epsilon st then
                        (case tape1 of
                           [] \<Rightarrow> None
                         | k # tape2 \<Rightarrow> Some (Inr (k mod 3, st\<lparr>expected_pos := None\<rparr>, tape2)))
                      else
                        (case path of
                           [] \<Rightarrow> Some (Inl IndexError)
                         | p0 # ps \<Rightarrow>
                             Some (Inr (hd actions, st\<lparr>expected_pos := Some p0\<rparr>, tape1))))
               else
                 (case generate_goal m tape of
                    None \<Rightarrow> None
                  | Some (Inl e) \<Rightarrow> Some (Inl e)
                  | Some (Inr (g', tape')) \<Rightarrow> plan m p (st\<lparr>goal := Some g'\<rparr>) tape')))"
  by pat_completeness auto
termination
  by (relation "measure (\<lambda>(m, p, st, tape). length tape)") (auto dest: generate_goal_shorter)

text \<open>\<open>MazeDijkstraPolicy.__call__\<close>.\<close>

definition policy_call :: "nav_state \<Rightarrow> obs \<Rightarrow> nat list \<Rightarrow> (error + nat \<times> nav_state \<times> nat list) option" where
  "policy_call st ob tape =
     (case agent_pos ob of
        None \<Rightarrow> Some (Inl NeedAgentPosition)
      | Some xy \<Rightarrow>
          (case map_agent ob of
             None \<Rightarrow> Some (Inl NeedMap)
           | Some m \<Rightarrow>
               (let d = arctan2 (snd (agent_dir ob)) (fst (agent_dir ob)) / pi * 180
                in case ensure_goal m (on_reset st ob) tape of
                     None \<Rightarrow> None
                   | Some (Inl e) \<Rightarrow> Some (Inl e)
                   | Some (Inr (st1, tape1)) \<Rightarrow>
                       (case check_drift m xy st1 tape1 of
                          None \<Rightarrow> None
                        | Some (Inl e) \<Rightarrow> Some (Inl e)
                        | Some (Inr (st2, tape2)) \<Rightarrow> plan m (fst xy, snd xy, d) st2 tape2))))"

subsection \<open>Action sequences and the invariant of the search\<close>

text \<open>
  Running a sequence of actions from a pose, and the poses passed on the way: the
  transition system that the search explores.
\<close>

definition run :: "grid \<Rightarrow> real \<Rightarrow> real \<Rightarrow> pose \<Rightarrow> nat list \<Rightarrow> pose" where
  "run m ss ts p as = foldl (move m ss ts) p as"

fun trace :: "grid \<Rightarrow> real \<Rightarrow> real \<Rightarrow> pose \<Rightarrow> nat list \<Rightarrow> pose list" where
  "trace m ss ts p [] = []"
| "trace m ss ts p (a # as) = move m ss ts p a # trace m ss ts (move m ss ts p a) as"

text \<open>
  The invariant of the search loop. \<open>ds\<close> gives the level of every queue entry;
  \<open>k\<close> is the number of entries already expanded, \<open>D\<close> the actions already
  tried on entry \<open>k\<close>.
\<close>

definition bfs_inv ::
  "grid \<Rightarrow> real \<Rightarrow> real \<Rightarrow> pose \<Rightarrow> int \<times> int \<Rightarrow> bfs_state \<Rightarrow> nat list \<Rightarrow> nat \<Rightarrow> nat set \<Rightarrow> bool" where
  "bfs_inv m ss ts start g st ds k D \<longleftrightarrow>
     visited st = map key_of (que st) \<and> distinct (visited st) \<and> length (que st) < 100000
   \<and> que st \<noteq> [] \<and> que st ! 0 = start \<and> length ds = length (que st) \<and> ds ! 0 = 0
   \<and> sorted ds \<and> (k < length ds \<longrightarrow> last ds \<le> ds ! k + 1)
   \<and> parent_action st start = None
   \<and> (\<forall>u<length (que st). 0 < u \<longrightarrow>
         (\<exists>i<u. \<exists>a<3. parent st (que st ! u) = Some (que st ! i)
            \<and> parent_action st (que st ! u) = Some a
            \<and> move m ss ts (que st ! i) a = que st ! u \<and> ds ! u = ds ! i + 1))
   \<and> (\<forall>i<k. \<not> at_goal (que st ! i) g
         \<and> (\<forall>a<3. \<exists>u<length (que st).
               key_of (que st ! u) = key_of (move m ss ts (que st ! i) a) \<and> ds ! u \<le> ds ! i + 1))
   \<and> (\<forall>a\<in>D. \<exists>u<length (que st).
         key_of (que st ! u) = key_of (move m ss ts (que st ! k) a) \<and> ds ! u \<le> ds ! k + 1)"


subsection \<open>Shard names and the scan of the artifact directory\<close>

text \<open>
  Strings are lists of characters, a character being a code point below 256 (Latin-1).
  \<open>split\<close> on a one-character separator, \<open>replace\<close>, \<open>str\<close> of an integer
  and the format \<open>{i:0w}\<close> (zero padding after the sign).
\<close>

fun py_split :: "char \<Rightarrow> string \<Rightarrow> string list" where
  "py_split c [] = [[]]"
| "py_split c (x # xs) =
     (if x = c then [] # py_split c xs
      else (case py_split c xs of [] \<Rightarrow> [[x]] | t # ts \<Rightarrow> (x # t) # ts))"

function py_replace :: "string \<Rightarrow> string \<Rightarrow> string \<Rightarrow> string" where
  "py_replace old new s =
     (if old = [] then new @ concat (map (\<lambda>c. c # new) s)
      else if s = [] then []
      else if take (length old) s = old then new @ py_replace old new (drop (length old) s)
      else hd s # py_replace old new (tl s))"
  by pat_completeness auto

termination
  by (relation "measure (\<lambda>(old, new, s). length s)") auto

declare py_replace.simps [simp del]

text \<open>
  \<open>isnumeric\<close>: the string is not empty and all its characters are numeric. Below
  256 the numeric characters are the ten decimal digits, the superscripts two, three and
  one (U+00B2, U+00B3, U+00B9) and the fractions one quarter, one half and three quarters
  (U+00BC, U+00BD, U+00BE).
\<close>

definition is_digit :: "char \<Rightarrow> bool" where
  "is_digit c = (c \<in> set ''0123456789'')"

definition numeric_char :: "char \<Rightarrow> bool" where
  "numeric_char c =
     (is_digit c \<or> c \<in> set [CHR 0xB2, CHR 0xB3, CHR 0xB9, CHR 0xBC, CHR 0xBD, CHR 0xBE])"

definition isnumeric :: "string \<Rightarrow> bool" where
  "isnumeric s = (s \<noteq> [] \<and> (\<forall>c\<in>set s. numeric_char c))"

text \<open>
  \<open>int\<close> of a string. The source applies it to a token on which \<open>isnumeric\<close>
  holds, so to a string without sign, blank or underscore: the value in base ten when the
  string is decimal (not empty, decimal digits only), and \<open>ValueError\<close> otherwise.
\<close>

definition isdecimal :: "string \<Rightarrow> bool" where
  "isdecimal s = (s \<noteq> [] \<and> (\<forall>c\<in>set s. is_digit c))"

definition digit_val :: "char \<Rightarrow> int" where
  "digit_val c = int (of_char c) - 48"

definition decimal :: "string \<Rightarrow> int" where
  "decimal s = foldl (\<lambda>n c. 10 * n + digit_val c) 0 s"

definition int_of_str :: "string \<Rightarrow> error + int" where
  "int_of_str s = (if isdecimal s then Inr (decimal s) else Inl ValueError)"

definition digit_char :: "nat \<Rightarrow> char" where
  "digit_char d = ''0123456789'' ! d"

fun digits :: "nat \<Rightarrow> string" where
  "digits n = (if n < 10 then [digit_char n] else digits (n div 10) @ [digit_char (n mod 10)])"

declare digits.simps [simp del]

definition py_str :: "int \<Rightarrow> string" where
  "py_str i = (if i < 0 then ''-'' @ digits (nat (- i)) else digits (nat i))"

definition format0 :: "nat \<Rightarrow> int \<Rightarrow> string" where
  "format0 w i =
     (if i < 0 then ''-'' @ replicate (w - 1 - length (digits (nat (- i)))) CHR ''0'' @ digits (nat (- i))
      else replicate (w - length (digits (nat i))) CHR ''0'' @ digits (nat i))"

text \<open>
  The name of a shard file, as \<open>main\<close> builds it from the seed, the running episode
  count, the number of buffered episodes and their step count.
\<close>

definition fname :: "int \<Rightarrow> int \<Rightarrow> int \<Rightarrow> int \<Rightarrow> string" where
  "fname seed episodes datas_episodes datas_steps =
     (if 1 < datas_episodes
      then ''s'' @ py_str seed @ ''-ep'' @ format0 6 (episodes - datas_episodes) @ ''_''
             @ format0 6 (episodes - 1) @ ''-'' @ format0 4 datas_steps @ ''.npz''
      else ''s'' @ py_str seed @ ''-ep'' @ format0 6 (episodes - 1) @ ''-''
             @ format0 4 datas_steps @ ''.npz'')"


definition name_tokens :: "string \<Rightarrow> string list" where
  "name_tokens f = py_split CHR ''-'' (hd (py_split CHR ''.'' f))"

definition sepisode_of :: "string list \<Rightarrow> string" where
  "sepisode_of toks = last (py_split CHR ''_'' (py_replace ''ep'' [] (toks ! (length toks - 2))))"

fun count_loop :: "string list \<Rightarrow> int \<Rightarrow> int \<Rightarrow> error + int \<times> int" where
  "count_loop [] steps episodes = Inr (steps, episodes)"
| "count_loop (f # files) steps episodes =
     (let toks = name_tokens f;
          sstep = last toks
      in case (if isnumeric sstep
               then (case int_of_str sstep of Inl e \<Rightarrow> Inl e | Inr v \<Rightarrow> Inr (steps + v))
               else Inr steps) of
           Inl e \<Rightarrow> Inl e
         | Inr steps1 \<Rightarrow>
             if length toks < 2 then Inl IndexError
             else (let sepisode = sepisode_of toks
                   in case (if isnumeric sepisode
                            then (case int_of_str sepisode of
                                    Inl e \<Rightarrow> Inl e
                                  | Inr v \<Rightarrow> Inr (max episodes (v + 1)))
                            else Inr episodes) of
                        Inl e \<Rightarrow> Inl e
                      | Inr episodes1 \<Rightarrow> count_loop files steps1 episodes1))"


text \<open>
  A written shard by its seed, first and last episode index and step count, and what
  \<open>count_steps\<close> needs of a name to read both counts from it.
\<close>

definition shard_name :: "int \<times> int \<times> int \<times> int \<Rightarrow> string" where
  "shard_name w = (case w of (seed, f, l, S) \<Rightarrow> fname seed (l + 1) (l - f + 1) S)"



subsection \<open>The episode buffer of the main loop\<close>

text \<open>
  The state of \<open>main\<close> that the buffer uses, the block "Save to npz" and the loop
  over episodes. An episode's data is the list of its observations, the reset
  observation first, so \<open>len(d['reset']) - 1\<close> is the length minus one. The episodes that
  the environment and the policy produce are given as a list, and the loop is followed as
  far as the list reaches.
\<close>

record 'o main_state =
  steps :: int
  episodes :: int
  datas :: "'o list list"

definition datas_steps_of :: "'o list list \<Rightarrow> int" where
  "datas_steps_of ds = sum_list (map (\<lambda>d. int (length d) - 1) ds)"

definition save_npz :: "int \<Rightarrow> int \<Rightarrow> 'o main_state \<Rightarrow> 'o list \<Rightarrow> 'o main_state \<times> (string \<times> 'o list) list" where
  "save_npz seed steps_per_npz st data =
     (let datas1 = datas st @ [data];
          datas_episodes = int (length datas1);
          datas_steps = datas_steps_of datas1
      in if steps_per_npz \<le> datas_steps
         then (st\<lparr>datas := []\<rparr>,
               [(fname seed (episodes st) datas_episodes datas_steps, concat datas1)])
         else (st\<lparr>datas := datas1\<rparr>, []))"

fun main_loop ::
  "int \<Rightarrow> int \<Rightarrow> int \<Rightarrow> 'o list list \<Rightarrow> 'o main_state \<Rightarrow> (string \<times> 'o list) list
    \<Rightarrow> 'o main_state \<times> (string \<times> 'o list) list" where
  "main_loop seed num_steps steps_per_npz [] st saved = (st, saved)"
| "main_loop seed num_steps steps_per_npz (data # rest) st saved =
     (if steps st < num_steps then
        (let st1 = st\<lparr>steps := steps st + (int (length data) - 1), episodes := episodes st + 1\<rparr>
         in case save_npz seed steps_per_npz st1 data of
              (st2, written) \<Rightarrow> main_loop seed num_steps steps_per_npz rest st2 (saved @ written))
      else (st, saved))"

text \<open>
  The invariant of the loop: \<open>P\<close> is the list of episodes recorded so far, \<open>chunks\<close>
  their grouping into the shards saved so far.
\<close>

definition flush_inv ::
  "int \<Rightarrow> int \<Rightarrow> int \<Rightarrow> 'o list list \<Rightarrow> 'o main_state \<Rightarrow> (string \<times> 'o list) list \<Rightarrow> 'o list list list \<Rightarrow> bool" where
  "flush_inv e0 seed spn P st saved chunks \<longleftrightarrow>
     episodes st = e0 + int (length P) \<and> concat chunks @ datas st = P
   \<and> length saved = length chunks
   \<and> (\<forall>i<length chunks.
         chunks ! i \<noteq> []
       \<and> saved ! i = (fname seed (e0 + int (length (concat (take (Suc i) chunks))))
                        (int (length (chunks ! i))) (datas_steps_of (chunks ! i)),
                      concat (chunks ! i))
       \<and> spn \<le> datas_steps_of (chunks ! i)
       \<and> (\<forall>j. 0 < j \<and> j < length (chunks ! i) \<longrightarrow> datas_steps_of (take j (chunks ! i)) < spn))
   \<and> (\<forall>j. 0 < j \<and> j \<le> length (datas st) \<longrightarrow> datas_steps_of (take j (datas st)) < spn)"

subsection \<open>Maps used in the examples\<close>

definition open_grid :: "nat \<Rightarrow> nat \<Rightarrow> grid" where
  "open_grid w h = \<lparr>shape0 = w, shape1 = h, cell = (\<lambda>i j. 1)\<rparr>"

definition walled :: grid where
  "walled = \<lparr>shape0 = 3, shape1 = 3, cell = (\<lambda>i j. if i = 1 \<and> j = 1 then 1 else 2)\<rparr>"

definition corridor :: grid where
  "corridor = open_grid 2 1"

definition corridor_obs :: "real \<times> real \<Rightarrow> bool \<Rightarrow> obs" where
  "corridor_obs xy r =
     \<lparr>agent_pos = Some xy, agent_dir = (1, 0), map_agent = Some corridor, action = [],
      reward = 0, terminal = False, reset = r\<rparr>"

definition corridor_nav :: "(int \<times> int) option \<Rightarrow> pose option \<Rightarrow> nav_state" where
  "corridor_nav g e = \<lparr>step_size = 1, turn_size = 90, epsilon = 1 / 10, goal = g, expected_pos = e\<rparr>"

definition half_draw :: nat where
  "half_draw = 2 ^ 52"

text \<open>An environment that counts its steps and is done from the second step on.\<close>

definition count_env :: "nat \<Rightarrow> act \<Rightarrow> nat \<times> obs \<times> real \<times> bool \<times> unit" where
  "count_env n a = (n + 1, corridor_obs (1 / 2, 1 / 2) False, 1, 2 \<le> n + 1, ())"

definition count_reset :: "nat \<Rightarrow> nat \<times> obs" where
  "count_reset n = (0, corridor_obs (1 / 2, 1 / 2) False)"

section \<open>Properties of the planner's transition\<close>

lemma py_round_near: "\<bar>of_int (py_round v) - v\<bar> \<le> 1 / 2"
  unfolding py_round_def Let_def by (auto simp: abs_le_iff; linarith)

lemma fifth_near: "\<bar>of_int (py_round (v * KPREC)) / KPREC - v\<bar> \<le> 1 / 10"
proof -
  have "\<bar>of_int (py_round (v * 5)) - v * 5\<bar> \<le> 1 / 2"
    by (rule py_round_near)
  then show ?thesis
    unfolding KPREC_def by (simp add: abs_le_iff field_simps)
qed

lemma visit_seen: "key_of p1 \<in> set (visited st) \<Longrightarrow> visit p p1 a st = Inr st"
  by (simp add: visit_def)

text \<open>
  C4 (as amended). The key of a pose is the pose with each component rounded to the
  nearest multiple of one fifth (\<open>KPREC = 5\<close> is a number of buckets per unit, not
  a number of decimal digits): each component of the key is an integer divided by 5 and
  lies within one tenth of the component it comes from. Two poses with the same key are
  one search state: a pose whose key is already in \<open>visited\<close> is not enqueued and
  changes nothing.
\<close>

theorem key_of_fifths:
  "(\<exists>i j k. key_of (x, y, d) = (of_int i / 5, of_int j / 5, of_int k / 5)
      \<and> \<bar>of_int i / 5 - x\<bar> \<le> 1 / 10 \<and> \<bar>of_int j / 5 - y\<bar> \<le> 1 / 10
      \<and> \<bar>of_int k / 5 - d\<bar> \<le> 1 / 10)
   \<and> (key_of p1 = key_of q \<and> key_of q \<in> set (visited st) \<longrightarrow> visit p p1 a st = Inr st)"
proof (intro conjI exI impI)
  show "key_of (x, y, d) = (of_int (py_round (x * KPREC)) / 5, of_int (py_round (y * KPREC)) / 5,
     of_int (py_round (d * KPREC)) / 5)"
    by (simp add: key_of_def KPREC_def)
  show "\<bar>of_int (py_round (x * KPREC)) / 5 - x\<bar> \<le> 1 / 10"
    using fifth_near [of x] by (simp add: KPREC_def)
  show "\<bar>of_int (py_round (y * KPREC)) / 5 - y\<bar> \<le> 1 / 10"
    using fifth_near [of y] by (simp add: KPREC_def)
  show "\<bar>of_int (py_round (d * KPREC)) / 5 - d\<bar> \<le> 1 / 10"
    using fifth_near [of d] by (simp add: KPREC_def)
  assume "key_of p1 = key_of q \<and> key_of q \<in> set (visited st)"
  then show "visit p p1 a st = Inr st"
    by (simp add: visit_seen)
qed

theorem key_of_fifths_witness:
  "key_of (29 / 100, 0, 0) = key_of (1 / 4, 0, 0)
   \<and> key_of (1 / 4, 0, 0) = (1 / 5, 0, 0)
   \<and> visit (1 / 4, 0, 0) (29 / 100, 0, 0) 2 (init_state (1 / 4, 0, 0)) = Inr (init_state (1 / 4, 0, 0))"
  using key_of_fifths [of "1 / 4" 0 0 "(29 / 100, 0, 0)" "(1 / 4, 0, 0)" "init_state (1 / 4, 0, 0)"
      "(1 / 4, 0, 0)" 2]
  by (simp add: key_of_def py_round_def KPREC_def init_state_def)

text \<open>
  C4 as stated fails: at the pose \<open>(0.25, 0, 0)\<close> the key is \<open>(0.2, 0, 0)\<close>, while
  rounding to five decimal digits leaves the pose as it is.
\<close>

theorem key_of_not_five_digits:
  "key_of (1 / 4, 0, 0) = (1 / 5, 0, 0) \<and> spec_key (1 / 4, 0, 0) = (1 / 4, 0, 0)
   \<and> key_of (1 / 4, 0, 0) \<noteq> spec_key (1 / 4, 0, 0)"
  by (simp add: key_of_def spec_key_def spec_round_digits_def py_round_def KPREC_def)

text \<open>
  C5 (as amended). From a heading in \<open>(-180, 180]\<close> and with a turn increment in
  \<open>(0, 360)\<close>, a turn to the left gives the heading minus the increment, plus 360
  when that is below -180, and the result lies in \<open>[-180, 180)\<close>; a turn to the right
  gives the heading plus the increment, minus 360 when that is above 180, and the result
  lies in \<open>(-180, 180]\<close>. Both results lie in the closed interval
  \<open>[-180, 180]\<close>.
\<close>

theorem turn_heading_range:
  assumes "- 180 < d" and "d \<le> 180" and "0 < ts" and "ts < 360"
  shows "heading (move m ss ts (x, y, d) 0) \<in> {d - ts, d - ts + 360}
    \<and> - 180 \<le> heading (move m ss ts (x, y, d) 0)
    \<and> heading (move m ss ts (x, y, d) 0) < 180
    \<and> heading (move m ss ts (x, y, d) 1) \<in> {d + ts, d + ts - 360}
    \<and> - 180 < heading (move m ss ts (x, y, d) 1)
    \<and> heading (move m ss ts (x, y, d) 1) \<le> 180"
  using assms by (simp add: move_def heading_def Let_def)

theorem turn_heading_range_witness:
  "heading (move (open_grid 1 1) 1 90 (1 / 2, 1 / 2, 180) 0) = 90
   \<and> heading (move (open_grid 1 1) 1 90 (1 / 2, 1 / 2, 180) 1) = - 90"
  using turn_heading_range [of 180 90 "open_grid 1 1" 1 "1 / 2" "1 / 2"]
  by (simp add: move_def heading_def Let_def)

text \<open>
  C5 as stated fails: from the heading -90, a turn to the left by 90 gives -180, which
  is not in \<open>(-180, 180]\<close> (the test before the wrap is \<open>d1 < -180\<close>).
\<close>

theorem turn_left_reaches_minus_180:
  "(- 180 < (- 90 :: real) \<and> (- 90 :: real) \<le> 180 \<and> (0 :: real) < 90 \<and> (90 :: real) < 360)
   \<and> heading (move (open_grid 1 1) 1 90 (1 / 2, 1 / 2, - 90) 0) = - 180
   \<and> \<not> (- 180 < heading (move (open_grid 1 1) 1 90 (1 / 2, 1 / 2, - 90) 0))"
  by (simp add: move_def heading_def Let_def)

lemma probe_iff: "probe m xy x1y1 cs = (if \<exists>c \<in> set cs. blocked m c then xy else x1y1)"
  by (induction cs) auto

text \<open>
  C6. The forward action moves the position by the step length along the heading when
  none of the four probe points (the destination offset by the radius 0.2 in both
  coordinates) is blocked, that is, outside the map or in a wall cell; when one is
  blocked the pose stays as it is. The heading is the same in both cases.
\<close>

theorem forward_iff_clear:
  "move m ss ts (x, y, d) 2 =
     (if \<exists>c \<in> set (corners (x + ss * cos (d / 180 * pi), y + ss * sin (d / 180 * pi))).
           blocked m c
      then (x, y, d)
      else (x + ss * cos (d / 180 * pi), y + ss * sin (d / 180 * pi), d))
   \<and> heading (move m ss ts (x, y, d) 2) = d
   \<and> corners (x1, y1) =
       [(x1 - 2 / 10, y1 - 2 / 10), (x1 + 2 / 10, y1 - 2 / 10),
        (x1 - 2 / 10, y1 + 2 / 10), (x1 + 2 / 10, y1 + 2 / 10)]
   \<and> blocked m (x2, y2) =
       (x2 < 0 \<or> y2 < 0 \<or> real (shape0 m) \<le> x2 \<or> real (shape1 m) \<le> y2
        \<or> cell m (nat (py_int x2)) (nat (py_int y2)) = 2)"
  by (simp add: move_def forward_def Let_def probe_iff heading_def corners_def RADIUS_def
      blocked_def WALL_def)

theorem forward_iff_clear_witness:
  "move (open_grid 2 1) 1 90 (1 / 2, 1 / 2, 0) 2 = (3 / 2, 1 / 2, 0)
   \<and> move (open_grid 2 1) 1 90 (1 / 2, 1 / 2, 180) 2 = (1 / 2, 1 / 2, 180)"
  using forward_iff_clear [of "open_grid 2 1" 1 90 "1 / 2" "1 / 2" 0]
    forward_iff_clear [of "open_grid 2 1" 1 90 "1 / 2" "1 / 2" 180]
  by (simp add: corners_def blocked_def RADIUS_def open_grid_def WALL_def py_int_def)

section \<open>Properties of the wrapper and of the navigation policy\<close>

lemmas planner_defs =
  find_shortest_def init_state_def at_goal_def py_int_def visit_def move_def forward_def
  corners_def blocked_def RADIUS_def open_grid_def WALL_def key_of_def py_round_def KPREC_def
  walk.simps Let_def

lemma find_shortest_corridor:
  "find_shortest corridor (1 / 2, 1 / 2, 0) (1, 0) 1 90
     = Some (Inr ([2], [(3 / 2, 1 / 2, 0)], 6))"
  by (simp add: planner_defs corridor_def)

lemma generate_goal_corridor:
  "generate_goal corridor (3 # 2 # tape) = Some (Inr ((1, 0), tape))"
  by (simp add: corridor_def open_grid_def WALL_def)

lemma rand_half: "rand half_draw = 1 / 2"
  by (simp add: rand_def half_draw_def)

text \<open>
  C9. A reset sets the step count of the episode to zero and every step adds one. The
  \<open>terminal\<close> field of a step's observation is the environment's \<open>done\<close> flag
  when the step count (this step included) is below \<open>max_steps\<close>, and false
  otherwise; so it is true only when the environment is done.
\<close>

theorem terminal_below_cap:
  "epstep (fst (ar_reset env_reset w0)) = 0
   \<and> (ar_step env_step w a = Inr (w', ob, r, dn, info) \<longrightarrow>
        epstep w' = epstep w + 1
        \<and> max_steps w' = max_steps w
        \<and> (\<exists>e o'. env_step (env w) a = (e, o', r, dn, info))
        \<and> terminal ob = (if epstep w' < max_steps w' then dn else False)
        \<and> (terminal ob \<longrightarrow> dn))"
  by (auto simp: ar_reset_def ar_step_def Let_def split: prod.splits sum.splits act.splits if_splits)

theorem terminal_below_cap_witness:
  "ar_step count_env \<lparr>env = 1, max_steps = 2, epstep = 1, action_size = 3\<rparr> (IntAct 2)
     = Inr (\<lparr>env = 2, max_steps = 2, epstep = 2, action_size = 3\<rparr>,
            (corridor_obs (1 / 2, 1 / 2) False)\<lparr>action := [0, 0, 1], reward := 1\<rparr>, 1, True, ())
   \<and> terminal ((corridor_obs (1 / 2, 1 / 2) False)\<lparr>action := [0, 0, 1], reward := 1\<rparr>) = False"
  using terminal_below_cap [where env_reset = count_reset and env_step = count_env
      and ?w0.0 = "\<lparr>env = 1, max_steps = 2, epstep = 1, action_size = 3\<rparr>"
      and w = "\<lparr>env = 1, max_steps = 2, epstep = 1, action_size = 3\<rparr>" and a = "IntAct 2"
      and w' = "\<lparr>env = 2, max_steps = 2, epstep = 2, action_size = 3\<rparr>"
      and ob = "(corridor_obs (1 / 2, 1 / 2) False)\<lparr>action := [0, 0, 1], reward := 1\<rparr>"
      and r = 1 and dn = True and info = "()"]
  by (simp add: ar_step_def count_env_def onehot_def Let_def corridor_obs_def numeral_3_eq_3)

text \<open>
  C10. The drift test reads the position only. When the recorded expected position is
  close to the observed position, the test changes nothing and draws nothing, whatever
  the expected and the observed heading are; on an observation that is not a reset, the
  call is then the planning loop entered with the current goal.
\<close>

theorem drift_ignores_heading:
  assumes "expected_pos st = Some (ex, ey, ed)"
    and "isclose ex x (1 / 10 ^ 3)" and "isclose ey y (1 / 10 ^ 3)"
  shows "check_drift m (x, y) st tape = Some (Inr (st, tape))
    \<and> (agent_pos ob = Some (x, y) \<and> map_agent ob = Some m \<and> \<not> reset ob \<and> goal st = Some g \<longrightarrow>
         policy_call st ob tape
           = plan m (x, y, arctan2 (snd (agent_dir ob)) (fst (agent_dir ob)) / pi * 180) st tape)"
  using assms by (simp add: check_drift_def policy_call_def on_reset_def ensure_goal_def Let_def)

theorem drift_ignores_heading_witness:
  "policy_call (corridor_nav (Some (1, 0)) (Some (1 / 2, 1 / 2, 45))) (corridor_obs (1 / 2, 1 / 2) False)
       [half_draw]
     = Some (Inr (2, corridor_nav (Some (1, 0)) (Some (3 / 2, 1 / 2, 0)), []))"
  using drift_ignores_heading [where st = "corridor_nav (Some (1, 0)) (Some (1 / 2, 1 / 2, 45))"
      and ex = "1 / 2" and ey = "1 / 2" and ed = 45 and x = "1 / 2" and y = "1 / 2"
      and m = corridor and tape = "[half_draw]" and ob = "corridor_obs (1 / 2, 1 / 2) False"
      and g = "(1, 0)"]
  by (simp add: corridor_nav_def corridor_obs_def isclose_def arctan2_def find_shortest_corridor rand_half)

text \<open>
  C8 (as amended). When an expected position is recorded and the observed position
  \<open>(x, y)\<close> is not close to its first two components (\<open>np.isclose\<close> with relative
  tolerance 0.001 and absolute tolerance 1e-8; the heading is not compared), the drift
  test draws a new goal in place of the current one, and the call is the planning loop
  entered with the new goal: the old goal plays no part in the result. No error of its
  own is raised.
\<close>

theorem drift_replans:
  assumes "expected_pos st = Some e"
    and "\<not> (isclose (fst e) x (1 / 10 ^ 3) \<and> isclose (fst (snd e)) y (1 / 10 ^ 3))"
  shows "check_drift m (x, y) st tape =
      (case generate_goal m tape of
         None \<Rightarrow> None
       | Some (Inl er) \<Rightarrow> Some (Inl er)
       | Some (Inr (g', tape')) \<Rightarrow> Some (Inr (st\<lparr>goal := Some g'\<rparr>, tape')))
    \<and> (agent_pos ob = Some (x, y) \<and> map_agent ob = Some m \<and> goal st = Some g \<longrightarrow>
         policy_call st ob tape =
           (case generate_goal m tape of
              None \<Rightarrow> None
            | Some (Inl er) \<Rightarrow> Some (Inl er)
            | Some (Inr (g', tape')) \<Rightarrow>
                plan m (x, y, arctan2 (snd (agent_dir ob)) (fst (agent_dir ob)) / pi * 180)
                  ((on_reset st ob)\<lparr>goal := Some g'\<rparr>) tape'))"
  using assms
  by (auto simp: check_drift_def policy_call_def on_reset_def ensure_goal_def Let_def
      split: option.splits sum.splits)

theorem drift_replans_witness:
  "policy_call (corridor_nav (Some (0, 0)) (Some (3 / 2, 1 / 2, 0))) (corridor_obs (1 / 2, 1 / 2) False)
       [3, 2, half_draw]
     = Some (Inr (2, corridor_nav (Some (1, 0)) (Some (3 / 2, 1 / 2, 0)), []))"
  using drift_replans [where st = "corridor_nav (Some (0, 0)) (Some (3 / 2, 1 / 2, 0))"
      and e = "(3 / 2, 1 / 2, 0)" and x = "1 / 2" and y = "1 / 2"
      and ob = "corridor_obs (1 / 2, 1 / 2) False" and m = corridor and g = "(0, 0)"
      and tape = "[3, 2, half_draw]"]
  by (simp add: corridor_nav_def corridor_obs_def isclose_def arctan2_def find_shortest_corridor rand_half
      on_reset_def generate_goal_corridor del: generate_goal.simps)

text \<open>
  C8 as stated fails for a pose that differs from the expected pose in its heading
  only: with the expected pose \<open>(0.5, 0.5, 90)\<close> and the observed pose
  \<open>(0.5, 0.5, 0)\<close> the headings are far apart, and the call keeps the goal
  \<open>(1, 0)\<close> and plans for it, with the one draw on the tape used by the
  \<open>epsilon\<close> test.
\<close>

theorem heading_drift_keeps_goal:
  "\<not> isclose 90 0 (1 / 10 ^ 3)
   \<and> policy_call (corridor_nav (Some (1, 0)) (Some (1 / 2, 1 / 2, 90))) (corridor_obs (1 / 2, 1 / 2) False)
        [half_draw]
     = Some (Inr (2, corridor_nav (Some (1, 0)) (Some (3 / 2, 1 / 2, 0)), []))"
  by (simp add: corridor_nav_def corridor_obs_def isclose_def arctan2_def find_shortest_corridor rand_half
      policy_call_def check_drift_def on_reset_def ensure_goal_def)

section \<open>Properties of the search\<close>

lemma bfs_invD:
  assumes "bfs_inv m ss ts start g st ds k D"
  shows "visited st = map key_of (que st)" and "distinct (visited st)"
    and "length (que st) < 100000" and "que st \<noteq> []" and "que st ! 0 = start"
    and "length ds = length (que st)" and "ds ! 0 = 0" and "sorted ds"
    and "k < length ds \<longrightarrow> last ds \<le> ds ! k + 1"
    and "parent_action st start = None"
    and "\<forall>u<length (que st). 0 < u \<longrightarrow>
         (\<exists>i<u. \<exists>a<3. parent st (que st ! u) = Some (que st ! i)
            \<and> parent_action st (que st ! u) = Some a
            \<and> move m ss ts (que st ! i) a = que st ! u \<and> ds ! u = ds ! i + 1)"
    and "\<forall>i<k. \<not> at_goal (que st ! i) g
         \<and> (\<forall>a<3. \<exists>u<length (que st).
               key_of (que st ! u) = key_of (move m ss ts (que st ! i) a) \<and> ds ! u \<le> ds ! i + 1)"
    and "\<forall>a\<in>D. \<exists>u<length (que st).
         key_of (que st ! u) = key_of (move m ss ts (que st ! k) a) \<and> ds ! u \<le> ds ! k + 1"
  using assms unfolding bfs_inv_def by blast+

lemma visit_cases:
  assumes "visit p p1 a st = Inr st'"
  obtains (seen) "key_of p1 \<in> set (visited st)" "st' = st"
  | (fresh) "key_of p1 \<notin> set (visited st)" "que st' = que st @ [p1]"
      "visited st' = visited st @ [key_of p1]" "parent st' = (parent st)(p1 \<mapsto> p)"
      "parent_action st' = (parent_action st)(p1 \<mapsto> a)" "que_ix st' = que_ix st"
      "Suc (length (visited st)) < 100000"
  using assms by (auto simp: visit_def Let_def split: if_splits)

lemma sorted_le_last:
  assumes "sorted ds" and "u < length ds"
  shows "ds ! u \<le> (last ds :: nat)"
proof -
  from assms(2) have "ds \<noteq> []" by auto
  then have "last ds = ds ! (length ds - 1)" by (rule last_conv_nth)
  moreover have "ds ! u \<le> ds ! (length ds - 1)"
    using assms by (intro sorted_nth_mono) auto
  ultimately show ?thesis by simp
qed

lemma sorted_snoc_last:
  assumes "sorted ds" and "last ds \<le> (x::nat)"
  shows "sorted (ds @ [x])"
proof -
  have "y \<le> x" if "y \<in> set ds" for y
  proof -
    from that obtain u where "u < length ds" "y = ds ! u" by (auto simp: in_set_conv_nth)
    with sorted_le_last [OF assms(1)] assms(2) show ?thesis by fastforce
  qed
  with assms show ?thesis by (simp add: sorted_append)
qed

lemma visit_inv:
  assumes inv: "bfs_inv m ss ts start g st ds k D"
    and k: "k < length (que st)" and a: "a < 3"
    and v: "visit (que st ! k) (move m ss ts (que st ! k) a) a st = Inr st'"
  shows "\<exists>ds'. bfs_inv m ss ts start g st' ds' k (insert a D)
           \<and> (\<exists>qs. que st' = que st @ qs)"
  using v
proof (cases rule: visit_cases)
  case seen
  note d = bfs_invD [OF inv]
  from d have vis: "visited st = map key_of (que st)" by simp
  from seen(1) vis obtain u where u: "u < length (que st)"
    "key_of (que st ! u) = key_of (move m ss ts (que st ! k) a)"
    by (auto simp: in_set_conv_nth)
  from d k have ds: "length ds = length (que st)" "sorted ds" "last ds \<le> ds ! k + 1" "que st \<noteq> []"
    by simp_all
  have "ds ! u \<le> last ds"
    using ds u(1) sorted_le_last [of ds u] by simp
  with ds have "ds ! u \<le> ds ! k + 1" by simp
  with u d(13) have "\<forall>b\<in>insert a D. \<exists>u<length (que st).
         key_of (que st ! u) = key_of (move m ss ts (que st ! k) b) \<and> ds ! u \<le> ds ! k + 1"
    by auto
  with d have "bfs_inv m ss ts start g st ds k (insert a D)"
    unfolding bfs_inv_def by blast
  with seen(2) have "bfs_inv m ss ts start g st' ds k (insert a D)"
    by simp
  with seen(2) show ?thesis by auto
next
  case fresh
  let ?p = "que st ! k" and ?p1 = "move m ss ts (que st ! k) a"
  let ?n = "length (que st)"
  let ?ds = "ds @ [ds ! k + 1]"
  note d = bfs_invD [OF inv]
  from d k have base: "visited st = map key_of (que st)" "distinct (visited st)"
    "que st \<noteq> []" "que st ! 0 = start" "length ds = ?n" "ds ! 0 = 0" "sorted ds"
    "last ds \<le> ds ! k + 1" "parent_action st start = None"
    by simp_all
  from d have small: "length (que st) < 100000" by simp
  from d have tree: "\<forall>u<?n. 0 < u \<longrightarrow>
         (\<exists>i<u. \<exists>a<3. parent st (que st ! u) = Some (que st ! i)
            \<and> parent_action st (que st ! u) = Some a
            \<and> move m ss ts (que st ! i) a = que st ! u \<and> ds ! u = ds ! i + 1)"
    by simp
  from d have closed: "\<forall>i<k. \<not> at_goal (que st ! i) g
         \<and> (\<forall>a<3. \<exists>u<?n.
               key_of (que st ! u) = key_of (move m ss ts (que st ! i) a) \<and> ds ! u \<le> ds ! i + 1)"
    and part: "\<forall>a\<in>D. \<exists>u<?n.
         key_of (que st ! u) = key_of (move m ss ts (que st ! k) a) \<and> ds ! u \<le> ds ! k + 1"
    by simp_all
  have notin: "?p1 \<notin> set (que st)"
    using fresh(1) base(1) by auto
  have old: "que st' ! u = que st ! u \<and> ?ds ! u = ds ! u \<and> que st ! u \<noteq> ?p1" if "u < ?n" for u
  proof -
    from that have "que st ! u \<in> set (que st)" by simp
    with notin have "que st ! u \<noteq> ?p1" by metis
    with that fresh(2) base(5) show ?thesis by (simp add: nth_append)
  qed
  have new: "que st' ! ?n = ?p1" "?ds ! ?n = ds ! k + 1"
    using fresh(2) base(5) by (simp_all add: nth_append)
  have len: "length (que st') = Suc ?n" "length ?ds = Suc ?n"
    using fresh(2) base(5) by simp_all
  have c1: "visited st' = map key_of (que st')"
    using fresh base by simp
  have c2: "distinct (visited st')"
    using fresh base by simp
  have c3: "length (que st') < 100000"
    using fresh base by simp
  have c4: "que st' \<noteq> []" "que st' ! 0 = start" "?ds ! 0 = 0"
    using old [of 0] base k fresh(2) by auto
  have c5: "sorted ?ds"
    using sorted_snoc_last base by auto
  have c6: "last ?ds \<le> ?ds ! k + 1"
    using old [of k] k by simp
  have "start \<noteq> ?p1"
    using old [of 0] base k by auto
  then have c7: "parent_action st' start = None"
    using fresh(5) base(9) by simp
  have c8: "\<exists>i<u. \<exists>a<3. parent st' (que st' ! u) = Some (que st' ! i)
            \<and> parent_action st' (que st' ! u) = Some a
            \<and> move m ss ts (que st' ! i) a = que st' ! u \<and> ?ds ! u = ?ds ! i + 1"
    if "u < length (que st')" "0 < u" for u
  proof (cases "u < ?n")
    case True
    with tree that obtain i b where ib: "i < u" "b < 3" "parent st (que st ! u) = Some (que st ! i)"
      "parent_action st (que st ! u) = Some b" "move m ss ts (que st ! i) b = que st ! u"
      "ds ! u = ds ! i + 1"
      by blast
    from True ib(1) have "i < ?n" by simp
    with ib True old [of u] old [of i] fresh(4,5) show ?thesis
      by (intro exI [of _ i] conjI exI [of _ b]) auto
  next
    case False
    with that len have u: "u = ?n" by simp
    show ?thesis
      unfolding u using new old [of k] k a fresh(4,5)
      by (intro exI [of _ k] conjI exI [of _ a]) auto
  qed
  have c9: "\<not> at_goal (que st' ! i) g
         \<and> (\<forall>a<3. \<exists>u<length (que st').
               key_of (que st' ! u) = key_of (move m ss ts (que st' ! i) a) \<and> ?ds ! u \<le> ?ds ! i + 1)"
    if "i < k" for i
  proof -
    from that k have i: "i < ?n" by simp
    from closed that have ng: "\<not> at_goal (que st ! i) g"
      and cl: "\<forall>a<3. \<exists>u<?n. key_of (que st ! u) = key_of (move m ss ts (que st ! i) a) \<and> ds ! u \<le> ds ! i + 1"
      by auto
    have "\<exists>u<length (que st'). key_of (que st' ! u) = key_of (move m ss ts (que st' ! i) b) \<and> ?ds ! u \<le> ?ds ! i + 1"
      if "b < 3" for b
    proof -
      from cl that obtain u where "u < ?n" "key_of (que st ! u) = key_of (move m ss ts (que st ! i) b)"
        "ds ! u \<le> ds ! i + 1" by blast
      with old [of u] old [of i] i len show ?thesis
        by (intro exI [of _ u]) auto
    qed
    with ng old [of i] i show ?thesis by auto
  qed
  have c10: "\<exists>u<length (que st'). key_of (que st' ! u) = key_of (move m ss ts (que st' ! k) b) \<and> ?ds ! u \<le> ?ds ! k + 1"
    if "b \<in> insert a D" for b
  proof (cases "b = a")
    case True
    show ?thesis
      unfolding True using new old [of k] k len by (intro exI [of _ ?n]) auto
  next
    case False
    with that part obtain u where "u < ?n" "key_of (que st ! u) = key_of (move m ss ts (que st ! k) b)"
      "ds ! u \<le> ds ! k + 1" by blast
    with old [of u] old [of k] k len show ?thesis
      by (intro exI [of _ u]) auto
  qed
  have c11: "length ?ds = length (que st')"
    using len by simp
  have "bfs_inv m ss ts start g st' ?ds k (insert a D)"
    unfolding bfs_inv_def
    using c1 c2 c3 c4 c5 c6 c7 c8 c9 c10 c11 by (intro conjI allI impI ballI) blast+
  with fresh(2) show ?thesis by blast
qed

lemma bfs_inv_que_ix [simp]:
  "bfs_inv m ss ts start g (st\<lparr>que_ix := n\<rparr>) ds k D = bfs_inv m ss ts start g st ds k D"
  by (simp add: bfs_inv_def)

lemma for_actions_inv:
  assumes "bfs_inv m ss ts start g st ds k D" and "k < length (que st)"
    and "\<forall>a\<in>set as. a < 3"
    and "for_actions m ss ts (que st ! k) as st = Inr st'"
  shows "\<exists>ds'. bfs_inv m ss ts start g st' ds' k (D \<union> set as) \<and> (\<exists>qs. que st' = que st @ qs)"
  using assms
proof (induction as arbitrary: st ds D)
  case Nil
  then show ?case by auto
next
  case (Cons a as)
  from Cons.prems(4) obtain st1 where v: "visit (que st ! k) (move m ss ts (que st ! k) a) a st = Inr st1"
    and r: "for_actions m ss ts (que st ! k) as st1 = Inr st'"
    by (auto split: sum.splits)
  from Cons.prems(3) have a: "a < 3" and as: "\<forall>a\<in>set as. a < 3" by simp_all
  from visit_inv [OF Cons.prems(1,2) a v] obtain ds1 qs
    where i1: "bfs_inv m ss ts start g st1 ds1 k (insert a D)" and q1: "que st1 = que st @ qs"
    by blast
  from q1 Cons.prems(2) have k1: "k < length (que st1)" and same: "que st1 ! k = que st ! k"
    by (simp_all add: nth_append)
  from r same have r1: "for_actions m ss ts (que st1 ! k) as st1 = Inr st'" by simp
  from Cons.IH [OF i1 k1 as r1] obtain ds' qs'
    where "bfs_inv m ss ts start g st' ds' k (insert a D \<union> set as)" "que st' = que st1 @ qs'"
    by blast
  with q1 show ?case by auto
qed

lemma bfs_inv_next:
  assumes inv: "bfs_inv m ss ts start g st ds k D" and D: "{0, 1, 2} \<subseteq> D"
    and k: "k < length (que st)" and ng: "\<not> at_goal (que st ! k) g"
  shows "bfs_inv m ss ts start g st ds (Suc k) {}"
proof -
  note d = bfs_invD [OF inv]
  have lev: "last ds \<le> ds ! Suc k + 1" if "Suc k < length ds"
  proof -
    from d(8) that have "ds ! k \<le> ds ! Suc k"
      by (intro sorted_nth_mono) auto
    with d(9) that show ?thesis by simp
  qed
  have cl: "\<not> at_goal (que st ! i) g
         \<and> (\<forall>a<3. \<exists>u<length (que st).
               key_of (que st ! u) = key_of (move m ss ts (que st ! i) a) \<and> ds ! u \<le> ds ! i + 1)"
    if "i < Suc k" for i
  proof (cases "i < k")
    case True
    with d(12) show ?thesis by blast
  next
    case False
    with that have i: "i = k" by simp
    have "a \<in> D" if "a < 3" for a :: nat
    proof -
      from that have "a = 0 \<or> a = 1 \<or> a = 2" by auto
      with D show ?thesis by auto
    qed
    with d(13) ng show ?thesis unfolding i by blast
  qed
  show ?thesis
    unfolding bfs_inv_def using d(1-8,10,11) lev cl by (intro conjI allI impI ballI) blast+
qed

lemma bfs_while_inv:
  assumes "bfs_inv m ss ts start g st ds (que_ix st) {}" and "que_ix st \<le> length (que st)"
    and "bfs_while m g ss ts st = Inr (st', gs)"
  shows "\<exists>ds' k. bfs_inv m ss ts start g st' ds' k {} \<and> que_ix st' \<le> length (que st')
           \<and> (case gs of None \<Rightarrow> k = length (que st')
               | Some p \<Rightarrow> k < length (que st') \<and> p = que st' ! k \<and> at_goal p g)"
  using assms
proof (induction m g ss ts st arbitrary: ds rule: bfs_while.induct)
  case (1 m g ss ts st)
  let ?k = "que_ix st"
  let ?p = "que st ! ?k"
  let ?st1 = "st\<lparr>que_ix := ?k + 1\<rparr>"
  show ?case
  proof (cases "?k < length (que st)")
    case False
    with "1.prems"(3) have "st' = st" "gs = None"
      by (simp_all add: bfs_while.simps [of m g ss ts st])
    with False "1.prems"(1,2) show ?thesis
      by (intro exI [of _ ds] exI [of _ ?k]) simp
  next
    case k: True
    show ?thesis
    proof (cases "at_goal ?p g")
      case True
      with k "1.prems"(3) have "st' = ?st1" "gs = Some ?p"
        by (simp_all add: bfs_while.simps [of m g ss ts st] Let_def)
      with True k "1.prems"(1) show ?thesis
        by (intro exI [of _ ds] exI [of _ ?k]) simp
    next
      case False
      with k "1.prems"(3) obtain st2 where fa: "for_actions m ss ts ?p [0, 1, 2] ?st1 = Inr st2"
        and rec: "bfs_while m g ss ts st2 = Inr (st', gs)"
        by (auto simp: bfs_while.simps [of m g ss ts st] Let_def split: sum.splits)
      have i1: "bfs_inv m ss ts start g ?st1 ds ?k {}"
        using "1.prems"(1) by simp
      have k1: "?k < length (que ?st1)" and p1: "que ?st1 ! ?k = ?p"
        using k by simp_all
      from for_actions_inv [OF i1 k1 _ fa [folded p1]] obtain ds2 qs
        where i2: "bfs_inv m ss ts start g st2 ds2 ?k ({} \<union> set [0, 1, 2])"
          and q2: "que st2 = que ?st1 @ qs"
        by auto
      from q2 k have k2: "?k < length (que st2)" and same: "que st2 ! ?k = ?p"
        by (simp_all add: nth_append)
      from bfs_inv_next [OF i2 _ k2] False same
      have i3: "bfs_inv m ss ts start g st2 ds2 (Suc ?k) {}" by simp
      from for_actions_room [OF fa] have ix: "que_ix st2 = Suc ?k" by simp
      from i3 ix have i4: "bfs_inv m ss ts start g st2 ds2 (que_ix st2) {}" by simp
      from ix k2 have le: "que_ix st2 \<le> length (que st2)" by simp
      from "1.IH" [OF k refl refl False fa i4 le rec] show ?thesis .
    qed
  qed
qed

lemma visit_error: "visit p p1 a st = Inl e \<Longrightarrow> e = RunawayDijkstra"
  by (auto simp: visit_def Let_def split: if_splits)

lemma for_actions_error: "for_actions m ss ts p as st = Inl e \<Longrightarrow> e = RunawayDijkstra"
  by (induction as arbitrary: st) (auto split: sum.splits dest: visit_error)

lemma bfs_while_error: "bfs_while m g ss ts st = Inl e \<Longrightarrow> e = RunawayDijkstra"
proof (induction m g ss ts st rule: bfs_while.induct)
  case (1 m g ss ts st)
  show ?case
  proof (cases "que_ix st < length (que st) \<and> \<not> at_goal (que st ! que_ix st) g")
    case False
    with "1.prems" show ?thesis
      by (auto simp: bfs_while.simps [of m g ss ts st] Let_def split: if_splits)
  next
    case True
    show ?thesis
    proof (cases "for_actions m ss ts (que st ! que_ix st) [0, 1, 2] (st\<lparr>que_ix := que_ix st + 1\<rparr>)")
      case (Inl e')
      with True "1.prems" for_actions_error [OF Inl] show ?thesis
        by (simp add: bfs_while.simps [of m g ss ts st] Let_def)
    next
      case (Inr st2)
      with True "1.prems" have "bfs_while m g ss ts st2 = Inl e"
        by (simp add: bfs_while.simps [of m g ss ts st] Let_def)
      with "1.IH" [OF _ refl refl _ Inr] True show ?thesis by simp
    qed
  qed
qed

lemma bfs_inv_init: "bfs_inv m ss ts start g (init_state start) [0] 0 {}"
  by (simp add: bfs_inv_def init_state_def)

lemma run_snoc: "run m ss ts p (as @ [a]) = move m ss ts (run m ss ts p as) a"
  by (simp add: run_def)

lemma trace_snoc:
  "trace m ss ts p (as @ [a]) = trace m ss ts p as @ [move m ss ts (run m ss ts p as) a]"
  by (induction as arbitrary: p) (simp_all add: run_def)

lemma walk_tree:
  assumes inv: "bfs_inv m ss ts start g st ds k D" and u: "u < length (que st)"
  shows "\<exists>as. length as = ds ! u \<and> set as \<subseteq> {0, 1, 2} \<and> run m ss ts start as = que st ! u
           \<and> (\<forall>P A. walk (parent st) (parent_action st) (que st ! u) P A
                 = Some (Inr (P @ rev (trace m ss ts start as), A @ rev as)))"
  using u
proof (induction u rule: less_induct)
  case (less u)
  note d = bfs_invD [OF inv]
  show ?case
  proof (cases "u = 0")
    case True
    have "walk (parent st) (parent_action st) start P A = Some (Inr (P, A))" for P A
      using d(10) by (simp add: walk.simps)
    with True d(5,7) show ?thesis
      by (intro exI [of _ "[]"]) (simp add: run_def)
  next
    case False
    with d(11) less.prems obtain i a where ia: "i < u" "a < 3"
      "parent st (que st ! u) = Some (que st ! i)" "parent_action st (que st ! u) = Some a"
      "move m ss ts (que st ! i) a = que st ! u" "ds ! u = ds ! i + 1"
      by (metis neq0_conv)
    from ia(1) less.prems have "i < length (que st)" by simp
    from less.IH [OF ia(1) this] obtain as where as: "length as = ds ! i" "set as \<subseteq> {0, 1, 2}"
      "run m ss ts start as = que st ! i"
      "\<And>P A. walk (parent st) (parent_action st) (que st ! i) P A
                 = Some (Inr (P @ rev (trace m ss ts start as), A @ rev as))"
      by blast
    have w: "walk (parent st) (parent_action st) (que st ! u) P A
        = Some (Inr (P @ rev (trace m ss ts start (as @ [a])), A @ rev (as @ [a])))" for P A
      using ia(3,4,5) as(3) as(4) [of "P @ [que st ! u]" "A @ [a]"]
      by (subst walk.simps) (simp add: trace_snoc)
    from ia(2) have "a \<in> {0, 1, 2}" by auto
    with as ia w show ?thesis
      by (intro exI [of _ "as @ [a]"]) (simp add: run_snoc)
  qed
qed

text \<open>What \<open>find_shortest\<close> returns, in terms of the final state of the search.\<close>

lemma find_shortest_result:
  "find_shortest m start g ss ts = Some (Inl RunawayDijkstra)
   \<or> (\<exists>st ds k. bfs_inv m ss ts start g st ds k {}
        \<and> ((k = length (que st)
             \<and> find_shortest m start g ss ts = Some (Inr ([], [], length (que st))))
            \<or> (k < length (que st) \<and> at_goal (que st ! k) g
                \<and> (\<exists>as. length as = ds ! k \<and> set as \<subseteq> {0, 1, 2}
                      \<and> run m ss ts start as = que st ! k
                      \<and> find_shortest m start g ss ts
                          = Some (Inr (as, trace m ss ts start as, length (que st)))))))"
proof (cases "bfs_while m g ss ts (init_state start)")
  case (Inl e)
  with bfs_while_error [OF Inl] show ?thesis
    by (simp add: find_shortest_def)
next
  case (Inr r)
  obtain st gs where r: "r = (st, gs)" by (cases r)
  have q0: "que_ix (init_state start) \<le> length (que (init_state start))"
    and i0: "bfs_inv m ss ts start g (init_state start) [0] (que_ix (init_state start)) {}"
    using bfs_inv_init [of m ss ts start g] by (simp_all add: init_state_def)
  from bfs_while_inv [OF i0 q0 Inr [unfolded r]] obtain ds k
    where inv: "bfs_inv m ss ts start g st ds k {}"
      and gs: "case gs of None \<Rightarrow> k = length (que st)
               | Some p \<Rightarrow> k < length (que st) \<and> p = que st ! k \<and> at_goal p g"
    by blast
  from bfs_invD(1) [OF inv] have len: "length (visited st) = length (que st)" by simp
  show ?thesis
  proof (cases gs)
    case None
    with gs Inr r len have "k = length (que st)"
      "find_shortest m start g ss ts = Some (Inr ([], [], length (que st)))"
      by (simp_all add: find_shortest_def)
    with inv show ?thesis by blast
  next
    case (Some p)
    with gs have k: "k < length (que st)" and p: "p = que st ! k" and ag: "at_goal (que st ! k) g"
      by auto
    from walk_tree [OF inv k] obtain as where as: "length as = ds ! k" "set as \<subseteq> {0, 1, 2}"
      "run m ss ts start as = que st ! k"
      "walk (parent st) (parent_action st) (que st ! k) [] []
         = Some (Inr ([] @ rev (trace m ss ts start as), [] @ rev as))"
      by blast
    from as(4) Inr r Some p len
    have "find_shortest m start g ss ts = Some (Inr (as, trace m ss ts start as, length (que st)))"
      by (simp add: find_shortest_def)
    with inv k ag as(1,2,3) show ?thesis by blast
  qed
qed

lemma bfs_while_bounded:
  "case bfs_while m g ss ts (init_state start) of
     Inl e \<Rightarrow> e = RunawayDijkstra
   | Inr (st, gs) \<Rightarrow>
       visited st = map key_of (que st) \<and> distinct (visited st) \<and> length (visited st) < 100000
       \<and> que_ix st \<le> length (que st)"
proof (cases "bfs_while m g ss ts (init_state start)")
  case (Inl e)
  with bfs_while_error [OF Inl] show ?thesis by simp
next
  case (Inr r)
  obtain st gs where r: "r = (st, gs)" by (cases r)
  have q0: "que_ix (init_state start) \<le> length (que (init_state start))"
    and i0: "bfs_inv m ss ts start g (init_state start) [0] (que_ix (init_state start)) {}"
    using bfs_inv_init [of m ss ts start g] by (simp_all add: init_state_def)
  from bfs_while_inv [OF i0 q0 Inr [unfolded r]] obtain ds k
    where inv: "bfs_inv m ss ts start g st ds k {}" and ix: "que_ix st \<le> length (que st)"
    by blast
  from bfs_invD(1-3) [OF inv] ix Inr r show ?thesis by simp
qed

text \<open>
  C7. The search returns on every input: \<open>find_shortest\<close> has a result, which is the
  runaway assertion or a triple. The loop itself is a total function (its measure is
  twice the room left below 100000 keys, plus the part of the queue not yet taken). When
  it ends without the assertion, the keys in \<open>visited\<close> are the keys of the queue
  entries, one each and all different, so every key was enqueued once, and there are
  fewer than 100000 of them. A new key that would bring \<open>visited\<close> to 100000 entries
  raises the assertion. In the example the start is walled in on all four sides: the
  forward action leaves the pose as it is and the search ends with five keys.
\<close>

theorem search_terminates:
  "(\<exists>r. find_shortest m start g ss ts = Some r)
   \<and> (case bfs_while m g ss ts (init_state start) of
         Inl e \<Rightarrow> e = RunawayDijkstra
       | Inr (st, gs) \<Rightarrow>
           visited st = map key_of (que st) \<and> distinct (visited st)
           \<and> length (visited st) < 100000 \<and> que_ix st \<le> length (que st))
   \<and> (key_of p1 \<notin> set (visited st0) \<and> 100000 \<le> length (visited st0) + 1
        \<longrightarrow> visit p p1 a st0 = Inl RunawayDijkstra)"
proof (intro conjI)
  from find_shortest_result [of m start g ss ts]
  show "\<exists>r. find_shortest m start g ss ts = Some r" by blast
  show "case bfs_while m g ss ts (init_state start) of
         Inl e \<Rightarrow> e = RunawayDijkstra
       | Inr (st, gs) \<Rightarrow>
           visited st = map key_of (que st) \<and> distinct (visited st)
           \<and> length (visited st) < 100000 \<and> que_ix st \<le> length (que st)"
    by (rule bfs_while_bounded)
  show "key_of p1 \<notin> set (visited st0) \<and> 100000 \<le> length (visited st0) + 1
        \<longrightarrow> visit p p1 a st0 = Inl RunawayDijkstra"
    by (simp add: visit_def Let_def)
qed

theorem search_terminates_witness:
  "find_shortest walled (3 / 2, 3 / 2, 0) (0, 0) 1 90 = Some (Inr ([], [], 5))
   \<and> move walled 1 90 (3 / 2, 3 / 2, 0) 2 = (3 / 2, 3 / 2, 0)
   \<and> visit (3 / 2, 3 / 2, 0) (3 / 2, 3 / 2, 90) 1
        \<lparr>que = [], que_ix = 0, visited = replicate 99999 (0, 0, 0), parent = Map.empty,
         parent_action = Map.empty\<rparr> = Inl RunawayDijkstra"
  using search_terminates [where m = walled and start = "(3 / 2, 3 / 2, 0)" and g = "(0, 0)"
      and ss = 1 and ts = 90 and ?p1.0 = "(3 / 2, 3 / 2, 90)" and p = "(3 / 2, 3 / 2, 0)" and a = 1
      and ?st0.0 = "\<lparr>que = [], que_ix = 0, visited = replicate 99999 (0, 0, 0), parent = Map.empty,
         parent_action = Map.empty\<rparr>"]
  by (simp add: planner_defs walled_def)










section \<open>Properties of the shard writer and of resumption\<close>

lemma replicate_num: "replicate (numeral k) x = x # replicate (pred_numeral k) x"
  by (simp add: numeral_eq_Suc)

lemma py_split_nonempty: "py_split c xs \<noteq> []"
  by (induction xs) (auto split: list.splits)

lemma py_split_append: "py_split c (xs @ c # ys) = py_split c xs @ py_split c ys"
proof (induction xs)
  case Nil
  show ?case by simp
next
  case (Cons x xs)
  obtain t ts where "py_split c xs = t # ts"
    using py_split_nonempty [of c xs] by (cases "py_split c xs") auto
  with Cons show ?case by simp
qed

lemma py_split_none: "c \<notin> set ys \<Longrightarrow> py_split c ys = [ys]"
  by (induction ys) auto

lemma digit_cases:
  assumes "d < (10::nat)"
  shows "d = 0 \<or> d = 1 \<or> d = 2 \<or> d = 3 \<or> d = 4 \<or> d = 5 \<or> d = 6 \<or> d = 7 \<or> d = 8 \<or> d = 9"
  using assms by presburger

lemma digit_char_props:
  assumes "d < 10"
  shows "is_digit (digit_char d)" and "digit_val (digit_char d) = int d"
proof -
  show "is_digit (digit_char d)"
    using digit_cases [OF assms] by (elim disjE) (simp_all add: is_digit_def digit_char_def)
  show "digit_val (digit_char d) = int d"
    using digit_cases [OF assms] by (elim disjE) (simp_all add: digit_char_def digit_val_def)
qed

lemma digits_all: "\<forall>c\<in>set (digits n). is_digit c"
proof (induction n rule: digits.induct)
  case (1 n)
  show ?case
  proof (cases "n < 10")
    case True
    then show ?thesis by (subst digits.simps) (simp add: digit_char_props)
  next
    case False
    with 1 have "\<forall>c\<in>set (digits (n div 10)). is_digit c" by simp
    moreover have "is_digit (digit_char (n mod 10))" by (simp add: digit_char_props)
    ultimately show ?thesis using False by (subst digits.simps) simp
  qed
qed

lemma digits_nonempty: "digits n \<noteq> []"
  by (subst digits.simps) simp

lemma py_replace_ep_none: "CHR ''e'' \<notin> set s \<Longrightarrow> py_replace ''ep'' [] s = s"
proof (induction s)
  case Nil
  show ?case by (simp add: py_replace.simps)
next
  case (Cons x s)
  then have x: "x \<noteq> CHR ''e''" and ih: "py_replace ''ep'' [] s = s" by auto
  have "py_replace ''ep'' [] (x # s) = x # py_replace ''ep'' [] s"
    using x by (subst py_replace.simps) auto
  with ih show ?case by simp
qed

lemma py_replace_ep_prefix: "CHR ''e'' \<notin> set s \<Longrightarrow> py_replace ''ep'' [] (''ep'' @ s) = s"
proof -
  assume a: "CHR ''e'' \<notin> set s"
  have "py_replace ''ep'' [] (''ep'' @ s) = [] @ py_replace ''ep'' [] (drop (length ''ep'') (''ep'' @ s))"
    by (subst py_replace.simps) simp
  with py_replace_ep_none [OF a] show ?thesis by simp
qed

lemma decimal_snoc: "decimal (s @ [c]) = 10 * decimal s + digit_val c"
  by (simp add: decimal_def)

lemma decimal_digits: "decimal (digits n) = int n"
proof (induction n rule: digits.induct)
  case (1 n)
  show ?case
  proof (cases "n < 10")
    case True
    then show ?thesis
      by (subst digits.simps) (simp add: decimal_def digit_char_props)
  next
    case False
    with 1 have "decimal (digits (n div 10)) = int (n div 10)" by simp
    moreover have "digit_val (digit_char (n mod 10)) = int (n mod 10)"
      by (simp add: digit_char_props)
    ultimately have "decimal (digits (n div 10) @ [digit_char (n mod 10)]) = int n"
      unfolding decimal_snoc by (simp add: zdiv_int zmod_int)
    with False show ?thesis by (subst digits.simps) simp
  qed
qed

lemma decimal_zeros: "decimal (replicate k CHR ''0'' @ s) = decimal s"
proof -
  have "foldl (\<lambda>n c. 10 * n + digit_val c) 0 (replicate k CHR ''0'') = 0"
    by (induction k) (simp_all add: digit_val_def)
  then show ?thesis by (simp add: decimal_def)
qed

lemma isdecimal_isnumeric: "isdecimal s \<Longrightarrow> isnumeric s"
  by (simp add: isdecimal_def isnumeric_def numeric_char_def)

lemma format0_nonneg:
  assumes "0 \<le> i"
  shows "isdecimal (format0 w i)" and "decimal (format0 w i) = i"
    and "\<forall>c\<in>set (format0 w i). is_digit c"
proof -
  have z: "is_digit CHR ''0''" by (simp add: is_digit_def)
  from assms show "\<forall>c\<in>set (format0 w i). is_digit c"
    using digits_all [of "nat i"] z by (auto simp: format0_def)
  with assms show "isdecimal (format0 w i)"
    using digits_nonempty [of "nat i"] by (simp add: isdecimal_def format0_def)
  from assms show "decimal (format0 w i) = i"
    by (simp add: format0_def decimal_zeros decimal_digits)
qed

lemma count_loop_decimal:
  assumes "2 \<le> length (name_tokens f)" and "isdecimal (last (name_tokens f))"
    and "isdecimal (sepisode_of (name_tokens f))"
  shows "count_loop (f # fs) s e =
    count_loop fs (s + decimal (last (name_tokens f)))
      (max e (decimal (sepisode_of (name_tokens f)) + 1))"
  using assms isdecimal_isnumeric [OF assms(2)] isdecimal_isnumeric [OF assms(3)]
  by (simp add: Let_def int_of_str_def)

lemma sep_not_digit:
  "\<not> is_digit CHR ''-''" "\<not> is_digit CHR ''.''" "\<not> is_digit CHR ''_''" "\<not> is_digit CHR ''e''"
  by (simp_all add: is_digit_def)

lemma digits_no_sep:
  assumes "\<forall>c\<in>set s. is_digit c"
  shows "CHR ''-'' \<notin> set s" and "CHR ''.'' \<notin> set s" and "CHR ''_'' \<notin> set s" and "CHR ''e'' \<notin> set s"
  using assms sep_not_digit by blast+

lemma py_str_chars: "CHR ''.'' \<notin> set (py_str i)"
  using digits_no_sep(2) [OF digits_all] by (simp add: py_str_def)

lemma last_py_split:
  assumes "c \<notin> set ys"
  shows "py_split c (xs @ c # ys) = py_split c xs @ [ys]"
  using assms by (simp add: py_split_append py_split_none)

lemma name_parse:
  assumes n: "1 \<le> n" "n \<le> E" and S: "0 \<le> S"
  shows "2 \<le> length (name_tokens (fname seed E n S))"
    and "last (name_tokens (fname seed E n S)) = format0 4 S"
    and "sepisode_of (name_tokens (fname seed E n S)) = format0 6 (E - 1)"
proof -
  define pre where "pre = ''s'' @ py_str seed"
  define F2 where "F2 = format0 6 (E - 1)"
  define A where "A = (if 1 < n then format0 6 (E - n) @ CHR ''_'' # F2 else F2)"
  define B where "B = format0 4 S"
  define base where "base = pre @ CHR ''-'' # (''ep'' @ A) @ CHR ''-'' # B"
  have name: "fname seed E n S = base @ CHR ''.'' # ''npz''"
    by (simp add: fname_def base_def pre_def A_def B_def F2_def)
  from n have nn: "0 \<le> E - 1" "0 \<le> E - n" by simp_all
  have dF2: "\<forall>c\<in>set F2. is_digit c" unfolding F2_def by (rule format0_nonneg(3) [OF nn(1)])
  have dF1: "\<forall>c\<in>set (format0 6 (E - n)). is_digit c" by (rule format0_nonneg(3) [OF nn(2)])
  have dB: "\<forall>c\<in>set B. is_digit c" unfolding B_def by (rule format0_nonneg(3) [OF S])
  have A_dot: "CHR ''.'' \<notin> set A" and A_dash: "CHR ''-'' \<notin> set A" and A_e: "CHR ''e'' \<notin> set A"
    using digits_no_sep [OF dF2] digits_no_sep [OF dF1] by (simp_all add: A_def)
  have base_dot: "CHR ''.'' \<notin> set base"
    using A_dot digits_no_sep(2) [OF dB] py_str_chars [of seed] by (simp add: base_def pre_def)
  have "py_split CHR ''.'' (fname seed E n S) = py_split CHR ''.'' base @ [''npz'']"
    unfolding name by (rule last_py_split) simp
  with base_dot have "hd (py_split CHR ''.'' (fname seed E n S)) = base"
    by (simp add: py_split_none)
  then have toks0: "name_tokens (fname seed E n S) = py_split CHR ''-'' base"
    by (simp add: name_tokens_def)
  have "py_split CHR ''-'' base = py_split CHR ''-'' (pre @ CHR ''-'' # (''ep'' @ A)) @ [B]"
    using last_py_split [OF digits_no_sep(1) [OF dB], of "pre @ CHR ''-'' # (''ep'' @ A)"]
    by (simp add: base_def)
  also have "py_split CHR ''-'' (pre @ CHR ''-'' # (''ep'' @ A)) = py_split CHR ''-'' pre @ [''ep'' @ A]"
    by (rule last_py_split) (use A_dash in simp)
  finally have toks: "name_tokens (fname seed E n S) = py_split CHR ''-'' pre @ [''ep'' @ A, B]"
    using toks0 by simp
  show "2 \<le> length (name_tokens (fname seed E n S))"
    unfolding toks by simp
  show "last (name_tokens (fname seed E n S)) = format0 4 S"
    unfolding toks by (simp add: B_def)
  have "(py_split CHR ''-'' pre @ [''ep'' @ A, B]) ! (length (py_split CHR ''-'' pre @ [''ep'' @ A, B]) - 2)
      = ''ep'' @ A"
    by (simp add: nth_append)
  then have "sepisode_of (name_tokens (fname seed E n S)) = last (py_split CHR ''_'' A)"
    unfolding toks sepisode_of_def using py_replace_ep_prefix [OF A_e] by simp
  also have "py_split CHR ''_'' A = (if 1 < n then [format0 6 (E - n), F2] else [F2])"
    using last_py_split [OF digits_no_sep(3) [OF dF2], of "format0 6 (E - n)"]
      py_split_none [OF digits_no_sep(3) [OF dF2]] py_split_none [OF digits_no_sep(3) [OF dF1]]
    by (simp add: A_def)
  finally show "sepisode_of (name_tokens (fname seed E n S)) = format0 6 (E - 1)"
    by (simp add: F2_def)
qed

lemma count_loop_written:
  assumes "1 \<le> n" "n \<le> E" "0 \<le> S"
  shows "count_loop (fname seed E n S # fs) s e = count_loop fs (s + S) (max e E)"
proof -
  note p = name_parse [OF assms, of seed]
  from assms have E: "0 \<le> E - 1" by simp
  have "count_loop (fname seed E n S # fs) s e =
    count_loop fs (s + decimal (format0 4 S)) (max e (decimal (format0 6 (E - 1)) + 1))"
    using count_loop_decimal [OF p(1), of fs s e] format0_nonneg(1) [OF assms(3), of 4]
      format0_nonneg(1) [OF E, of 6]
    by (simp add: p(2,3))
  then show ?thesis
    by (simp add: format0_nonneg(2) [OF assms(3)] format0_nonneg(2) [OF E])
qed





lemma save_npz_inv:
  assumes inv: "flush_inv e0 seed spn P st saved chunks"
    and sv: "save_npz seed spn (st\<lparr>steps := s1, episodes := episodes st + 1\<rparr>) d = (st2, written)"
  shows "\<exists>chunks'. flush_inv e0 seed spn (P @ [d]) st2 (saved @ written) chunks'"
proof -
  let ?buf = "datas st @ [d]"
  from inv have ep: "episodes st = e0 + int (length P)" and cc: "concat chunks @ datas st = P"
    and len: "length saved = length chunks"
    and old: "\<forall>i<length chunks.
         chunks ! i \<noteq> []
       \<and> saved ! i = (fname seed (e0 + int (length (concat (take (Suc i) chunks))))
                        (int (length (chunks ! i))) (datas_steps_of (chunks ! i)),
                      concat (chunks ! i))
       \<and> spn \<le> datas_steps_of (chunks ! i)
       \<and> (\<forall>j. 0 < j \<and> j < length (chunks ! i) \<longrightarrow> datas_steps_of (take j (chunks ! i)) < spn)"
    and buf: "\<forall>j. 0 < j \<and> j \<le> length (datas st) \<longrightarrow> datas_steps_of (take j (datas st)) < spn"
    unfolding flush_inv_def by blast+
  show ?thesis
  proof (cases "spn \<le> datas_steps_of ?buf")
    case True
    with sv have st2: "datas st2 = []" "episodes st2 = episodes st + 1"
      and wr: "written = [(fname seed (episodes st + 1) (int (length ?buf)) (datas_steps_of ?buf), concat ?buf)]"
      by (auto simp: save_npz_def Let_def)
    let ?chunks = "chunks @ [?buf]"
    have a: "episodes st2 = e0 + int (length (P @ [d]))"
      using st2 ep by simp
    have b: "concat ?chunks @ datas st2 = P @ [d]"
      using st2 cc by simp
    have c: "length (saved @ written) = length ?chunks"
      using len wr by simp
    have total: "length (concat ?chunks) = length P + 1"
      using cc by (metis b st2(1) append_Nil2 length_append_singleton Suc_eq_plus1)
    have d: "?chunks ! i \<noteq> []
       \<and> (saved @ written) ! i = (fname seed (e0 + int (length (concat (take (Suc i) ?chunks))))
                        (int (length (?chunks ! i))) (datas_steps_of (?chunks ! i)),
                      concat (?chunks ! i))
       \<and> spn \<le> datas_steps_of (?chunks ! i)
       \<and> (\<forall>j. 0 < j \<and> j < length (?chunks ! i) \<longrightarrow> datas_steps_of (take j (?chunks ! i)) < spn)"
      if "i < length ?chunks" for i
    proof (cases "i < length chunks")
      case True
      with old len show ?thesis by (simp add: nth_append)
    next
      case False
      with that have i: "i = length chunks" by simp
      have nb: "datas_steps_of (take j ?buf) < spn" if "0 < j" "j < length ?buf" for j
        using that buf by simp
      show ?thesis
        unfolding i using True wr len ep total nb
        by (simp add: nth_append add.commute add.left_commute)
    qed
    have e: "\<forall>j. 0 < j \<and> j \<le> length (datas st2) \<longrightarrow> datas_steps_of (take j (datas st2)) < spn"
      using st2 by simp
    have "flush_inv e0 seed spn (P @ [d]) st2 (saved @ written) ?chunks"
      unfolding flush_inv_def using a b c d e by blast
    then show ?thesis ..
  next
    case False
    with sv have st2: "datas st2 = ?buf" "episodes st2 = episodes st + 1" and wr: "written = []"
      by (auto simp: save_npz_def Let_def)
    have a: "episodes st2 = e0 + int (length (P @ [d]))"
      using st2 ep by simp
    have b: "concat chunks @ datas st2 = P @ [d]"
      using st2 cc by simp
    have e: "datas_steps_of (take j (datas st2)) < spn" if "0 < j \<and> j \<le> length (datas st2)" for j
    proof (cases "j \<le> length (datas st)")
      case True
      with that buf st2 show ?thesis by simp
    next
      case False
      with that st2 have "take j (datas st2) = ?buf" by simp
      with \<open>\<not> spn \<le> datas_steps_of ?buf\<close> show ?thesis by simp
    qed
    have "flush_inv e0 seed spn (P @ [d]) st2 (saved @ written) chunks"
      unfolding flush_inv_def using a b len old e wr by simp
    then show ?thesis ..
  qed
qed

lemma main_loop_inv:
  assumes "flush_inv e0 seed spn P st saved chunks"
    and "main_loop seed num_steps spn es st saved = (st', saved')"
  shows "\<exists>chunks' k. k \<le> length es \<and> flush_inv e0 seed spn (P @ take k es) st' saved' chunks'"
  using assms
proof (induction es arbitrary: P st saved chunks)
  case Nil
  then show ?case by auto
next
  case (Cons d es)
  show ?case
  proof (cases "steps st < num_steps")
    case False
    with Cons.prems show ?thesis by (intro exI [of _ chunks] exI [of _ 0]) auto
  next
    case True
    let ?st1 = "st\<lparr>steps := steps st + (int (length d) - 1), episodes := episodes st + 1\<rparr>"
    obtain st2 written where sv: "save_npz seed spn ?st1 d = (st2, written)"
      by (cases "save_npz seed spn ?st1 d")
    with True Cons.prems(2) have rec: "main_loop seed num_steps spn es st2 (saved @ written) = (st', saved')"
      by (simp add: Let_def)
    from save_npz_inv [OF Cons.prems(1) sv] obtain chunks1
      where "flush_inv e0 seed spn (P @ [d]) st2 (saved @ written) chunks1" ..
    from Cons.IH [OF this rec] obtain chunks' k where "k \<le> length es"
      "flush_inv e0 seed spn ((P @ [d]) @ take k es) st' saved' chunks'" by blast
    then show ?thesis
      by (intro exI [of _ chunks'] exI [of _ "Suc k"]) simp
  qed
qed

lemmas name_defs =
  fname_def py_str_def format0_def digits.simps digit_char_def replicate_num shard_name_def







lemma concat_slice:
  assumes "i < length xss"
  shows "take (length (xss ! i)) (drop (length (concat (take i xss))) (concat xss @ ys)) = xss ! i"
proof -
  from assms have "xss = take i xss @ xss ! i # drop (Suc i) xss"
    by (rule id_take_nth_drop)
  then have "concat xss = concat (take i xss) @ xss ! i @ concat (drop (Suc i) xss)"
    by (metis concat.simps(2) concat_append)
  then show ?thesis by simp
qed

lemma take_drop_take:
  assumes "c + n \<le> k"
  shows "take n (drop c (take k es)) = take n (drop c es)"
proof -
  from assms have "min n (k - c) = n" by simp
  then show ?thesis by (simp add: drop_take)
qed

lemma fname_shard_name:
  "fname seed (e0 + int (c + n)) (int n) S = shard_name (seed, e0 + int c, e0 + int (c + n) - 1, S)"
  by (simp add: shard_name_def)

text \<open>
  C2. Run from an empty buffer, the loop groups the recorded episodes, in order and
  whole, into the saved shards followed by the buffer that is left. Every shard holds
  at least one episode; its name carries the index of its first and of its last episode
  and the sum of its episodes' step counts; that sum has reached the threshold, while no
  shorter run of the same episodes had, and neither has any part of the buffer that is
  left. One episode is added at a time: the buffer is saved and emptied when its step
  count with the new episode has reached the threshold, and only grows otherwise.
\<close>

theorem flush_at_threshold:
  assumes "datas st0 = []" and "main_loop seed num_steps spn es st0 [] = (st', saved)"
  shows "(\<exists>chunks k. k \<le> length es \<and> episodes st' = episodes st0 + int k
     \<and> concat chunks @ datas st' = take k es \<and> length saved = length chunks
     \<and> (\<forall>i<length chunks.
          let c = length (concat (take i chunks)); n = length (chunks ! i) in
          0 < n \<and> chunks ! i = take n (drop c es)
          \<and> saved ! i = (shard_name (seed, episodes st0 + int c, episodes st0 + int (c + n) - 1,
                                       datas_steps_of (chunks ! i)),
                         concat (chunks ! i))
          \<and> spn \<le> datas_steps_of (chunks ! i)
          \<and> (\<forall>j. 0 < j \<and> j < n \<longrightarrow> datas_steps_of (take j (chunks ! i)) < spn))
     \<and> (\<forall>j. 0 < j \<and> j \<le> length (datas st') \<longrightarrow> datas_steps_of (take j (datas st')) < spn))
   \<and> (spn \<le> datas_steps_of (datas st @ [d]) \<longrightarrow>
        save_npz seed spn st d =
          (st\<lparr>datas := []\<rparr>,
           [(fname seed (episodes st) (int (length (datas st @ [d]))) (datas_steps_of (datas st @ [d])),
             concat (datas st @ [d]))]))
   \<and> (datas_steps_of (datas st @ [d]) < spn \<longrightarrow>
        save_npz seed spn st d = (st\<lparr>datas := datas st @ [d]\<rparr>, []))"
proof (intro conjI)
  let ?e0 = "episodes st0"
  have "flush_inv ?e0 seed spn [] st0 [] []"
    using assms(1) by (simp add: flush_inv_def)
  from main_loop_inv [OF this assms(2)] obtain chunks k where k: "k \<le> length es"
    and inv: "flush_inv ?e0 seed spn (take k es) st' saved chunks"
    by auto
  from inv k have ep: "episodes st' = ?e0 + int k" and cc: "concat chunks @ datas st' = take k es"
    and len: "length saved = length chunks"
    and old: "\<forall>i<length chunks.
         chunks ! i \<noteq> []
       \<and> saved ! i = (fname seed (?e0 + int (length (concat (take (Suc i) chunks))))
                        (int (length (chunks ! i))) (datas_steps_of (chunks ! i)),
                      concat (chunks ! i))
       \<and> spn \<le> datas_steps_of (chunks ! i)
       \<and> (\<forall>j. 0 < j \<and> j < length (chunks ! i) \<longrightarrow> datas_steps_of (take j (chunks ! i)) < spn)"
    and buf: "\<forall>j. 0 < j \<and> j \<le> length (datas st') \<longrightarrow> datas_steps_of (take j (datas st')) < spn"
    unfolding flush_inv_def by (simp_all add: min_absorb2)
  have each: "let c = length (concat (take i chunks)); n = length (chunks ! i) in
          0 < n \<and> chunks ! i = take n (drop c es)
          \<and> saved ! i = (shard_name (seed, ?e0 + int c, ?e0 + int (c + n) - 1,
                                       datas_steps_of (chunks ! i)),
                         concat (chunks ! i))
          \<and> spn \<le> datas_steps_of (chunks ! i)
          \<and> (\<forall>j. 0 < j \<and> j < n \<longrightarrow> datas_steps_of (take j (chunks ! i)) < spn)"
    if i: "i < length chunks" for i
  proof -
    let ?c = "length (concat (take i chunks))" and ?n = "length (chunks ! i)"
    from i have sp: "take (Suc i) chunks = take i chunks @ [chunks ! i]"
      by (simp add: take_Suc_conv_app_nth)
    then have suc: "length (concat (take (Suc i) chunks)) = ?c + ?n" by simp
    have "length (concat (take (Suc i) chunks)) \<le> length (concat chunks)"
      by (metis append_take_drop_id concat_append length_append le_add1)
    also have "\<dots> \<le> length (take k es)"
      using cc by (metis length_append le_add1)
    finally have bound: "?c + ?n \<le> k" using suc by simp
    have "chunks ! i = take ?n (drop ?c (concat chunks @ datas st'))"
      using concat_slice [OF i, of "datas st'"] by simp
    also have "\<dots> = take ?n (drop ?c es)"
      unfolding cc by (rule take_drop_take [OF bound])
    finally have slice: "chunks ! i = take ?n (drop ?c es)" .
    from old i have o: "chunks ! i \<noteq> []"
      "saved ! i = (fname seed (?e0 + int (length (concat (take (Suc i) chunks))))
                        (int ?n) (datas_steps_of (chunks ! i)), concat (chunks ! i))"
      "spn \<le> datas_steps_of (chunks ! i)"
      "\<forall>j. 0 < j \<and> j < ?n \<longrightarrow> datas_steps_of (take j (chunks ! i)) < spn"
      by blast+
    from o(2) have nm: "saved ! i = (shard_name (seed, ?e0 + int ?c, ?e0 + int (?c + ?n) - 1,
                                       datas_steps_of (chunks ! i)), concat (chunks ! i))"
      unfolding suc fname_shard_name .
    from o(1) have "0 < ?n" by simp
    with slice nm o(3,4) show ?thesis
      unfolding Let_def by blast
  qed
  from k ep cc len each buf
  show "\<exists>chunks k. k \<le> length es \<and> episodes st' = episodes st0 + int k
     \<and> concat chunks @ datas st' = take k es \<and> length saved = length chunks
     \<and> (\<forall>i<length chunks.
          let c = length (concat (take i chunks)); n = length (chunks ! i) in
          0 < n \<and> chunks ! i = take n (drop c es)
          \<and> saved ! i = (shard_name (seed, episodes st0 + int c, episodes st0 + int (c + n) - 1,
                                       datas_steps_of (chunks ! i)),
                         concat (chunks ! i))
          \<and> spn \<le> datas_steps_of (chunks ! i)
          \<and> (\<forall>j. 0 < j \<and> j < n \<longrightarrow> datas_steps_of (take j (chunks ! i)) < spn))
     \<and> (\<forall>j. 0 < j \<and> j \<le> length (datas st') \<longrightarrow> datas_steps_of (take j (datas st')) < spn)"
    by blast
  show "spn \<le> datas_steps_of (datas st @ [d]) \<longrightarrow>
        save_npz seed spn st d =
          (st\<lparr>datas := []\<rparr>,
           [(fname seed (episodes st) (int (length (datas st @ [d]))) (datas_steps_of (datas st @ [d])),
             concat (datas st @ [d]))])"
    by (simp add: save_npz_def Let_def)
  show "datas_steps_of (datas st @ [d]) < spn \<longrightarrow>
        save_npz seed spn st d = (st\<lparr>datas := datas st @ [d]\<rparr>, [])"
    by (simp add: save_npz_def Let_def)
qed

theorem flush_at_threshold_witness:
  "main_loop 0 100 5 [[10, 11, 12], [20, 21, 22, 23], [30, 31 :: nat]]
      \<lparr>steps = 0, episodes = 0, datas = []\<rparr> []
    = (\<lparr>steps = 6, episodes = 3, datas = [[30, 31]]\<rparr>,
       [(''s0-ep000000_000001-0005.npz'', [10, 11, 12, 20, 21, 22, 23])])
   \<and> save_npz 0 5 \<lparr>steps = 5, episodes = 1, datas = []\<rparr> [10, 11, 12, 13, 14, 15 :: nat]
    = (\<lparr>steps = 5, episodes = 1, datas = []\<rparr>, [(''s0-ep000000-0005.npz'', [10, 11, 12, 13, 14, 15])])
   \<and> save_npz 0 5 \<lparr>steps = 2, episodes = 1, datas = []\<rparr> [10, 11, 12 :: nat]
    = (\<lparr>steps = 2, episodes = 1, datas = [[10, 11, 12]]\<rparr>, [])"
proof -
  have st0: "datas \<lparr>steps = 0, episodes = 0, datas = ([] :: nat list list)\<rparr> = []"
    by simp
  have ev: "main_loop 0 100 5 [[10, 11, 12], [20, 21, 22, 23], [30, 31 :: nat]]
      \<lparr>steps = 0, episodes = 0, datas = []\<rparr> []
    = (\<lparr>steps = 6, episodes = 3, datas = [[30, 31]]\<rparr>,
       [(''s0-ep000000_000001-0005.npz'', [10, 11, 12, 20, 21, 22, 23])])"
    by (simp add: save_npz_def datas_steps_of_def Let_def name_defs)
  from flush_at_threshold [OF st0 ev,
      where st = "\<lparr>steps = 5, episodes = 1, datas = []\<rparr>" and d = "[10, 11, 12, 13, 14, 15 :: nat]"]
    flush_at_threshold [OF st0 ev,
      where st = "\<lparr>steps = 2, episodes = 1, datas = []\<rparr>" and d = "[10, 11, 12 :: nat]"]
    ev
  show ?thesis
    by (simp add: datas_steps_of_def name_defs)
qed

end
